theory Spec2Isabelle
  imports Complex_Main "HOL-Library.Log_Nat"
begin

section \<open>JavaScript numbers\<close>

text \<open>
  A JavaScript number is an IEEE 754 binary64 value.  The model keeps \<open>NaN\<close>, the two
  infinities and the finite values, each finite value as the rational it denotes.  The two
  zeros are identified (the program never divides by a computed zero of either sign on the
  inputs studied here, and \<open>===\<close> does not tell them apart).

  Every arithmetic operation computes the exact rational result and rounds it to the nearest
  binary64 value, ties to even, as the standard prescribes.
\<close>

datatype number = NaN | PInf | NInf | Fin rat

text \<open>\<open>ilog b x\<close> is the integer \<open>e\<close> with \<open>b ^ e \<le> x < b ^ (e + 1)\<close>, for \<open>x > 0\<close>.\<close>

definition ilog :: "nat \<Rightarrow> rat \<Rightarrow> int" where
  "ilog bs x = (case quotient_of x of (n, d) \<Rightarrow>
     let k = int (floorlog bs (nat n)) - int (floorlog bs (nat d))
     in if rat_of_nat bs powi k \<le> x then k else k - 1)"

definition round_even :: "rat \<Rightarrow> int" where
  "round_even x = (let n = \<lfloor>x\<rfloor>; d = x - of_int n
     in if d < 1/2 then n else if 1/2 < d then n + 1 else if even n then n else n + 1)"

text \<open>
  Rounding to 53 significant bits.  \<open>expo x\<close> is the binary exponent of \<open>x\<close>, not
  below \<open>-1022\<close>, so that under \<open>2 ^ -1022\<close> the spacing \<open>ulp x\<close> stays
  \<open>2 ^ -1074\<close> (subnormal numbers).  The exponent is not bounded above here: \<open>fin\<close>
  decides overflow, which gives an infinity when the rounded value reaches \<open>2 ^ 1024\<close>.
\<close>

definition expo :: "rat \<Rightarrow> int" where
  "expo x = max (ilog 2 \<bar>x\<bar>) (- 1022)"

definition ulp :: "rat \<Rightarrow> rat" where
  "ulp x = 2 powi (expo x - 52)"

definition rnd :: "rat \<Rightarrow> rat" where
  "rnd x = (if x = 0 then 0 else of_int (round_even (x / ulp x)) * ulp x)"

definition fin :: "rat \<Rightarrow> number" where
  "fin x = (let y = rnd x in
     if y \<noteq> 0 \<and> 1024 \<le> ilog 2 \<bar>y\<bar> then (if 0 < y then PInf else NInf) else Fin y)"

definition sign_of :: "number \<Rightarrow> rat" where
  "sign_of x = (case x of NaN \<Rightarrow> 0 | PInf \<Rightarrow> 1 | NInf \<Rightarrow> - 1 | Fin v \<Rightarrow> sgn v)"

definition inf_of :: "rat \<Rightarrow> number" where
  "inf_of v = (if 0 < v then PInf else if v < 0 then NInf else NaN)"

definition fneg :: "number \<Rightarrow> number" where
  "fneg x = (case x of NaN \<Rightarrow> NaN | PInf \<Rightarrow> NInf | NInf \<Rightarrow> PInf | Fin v \<Rightarrow> Fin (- v))"

definition fadd :: "number \<Rightarrow> number \<Rightarrow> number" where
  "fadd x y = (case (x, y) of
       (Fin v, Fin w) \<Rightarrow> fin (v + w)
     | (NaN, _) \<Rightarrow> NaN
     | (_, NaN) \<Rightarrow> NaN
     | (PInf, NInf) \<Rightarrow> NaN
     | (NInf, PInf) \<Rightarrow> NaN
     | (PInf, _) \<Rightarrow> PInf
     | (NInf, _) \<Rightarrow> NInf
     | (_, PInf) \<Rightarrow> PInf
     | (_, NInf) \<Rightarrow> NInf)"

definition fsub :: "number \<Rightarrow> number \<Rightarrow> number" where
  "fsub x y = fadd x (fneg y)"

definition fmul :: "number \<Rightarrow> number \<Rightarrow> number" where
  "fmul x y = (case (x, y) of
       (Fin v, Fin w) \<Rightarrow> fin (v * w)
     | (NaN, _) \<Rightarrow> NaN
     | (_, NaN) \<Rightarrow> NaN
     | _ \<Rightarrow> inf_of (sign_of x * sign_of y))"

definition fdiv :: "number \<Rightarrow> number \<Rightarrow> number" where
  "fdiv x y = (case (x, y) of
       (Fin v, Fin w) \<Rightarrow> if w = 0 then inf_of (sgn v) else fin (v / w)
     | (NaN, _) \<Rightarrow> NaN
     | (_, NaN) \<Rightarrow> NaN
     | (Fin v, _) \<Rightarrow> Fin 0
     | (_, Fin w) \<Rightarrow> inf_of (sign_of x * (if w < 0 then - 1 else 1))
     | _ \<Rightarrow> NaN)"

text \<open>The remainder operator \<open>%\<close>: exact, with the sign of the dividend.\<close>

definition fmod :: "number \<Rightarrow> number \<Rightarrow> number" where
  "fmod x y = (case (x, y) of
       (Fin v, Fin w) \<Rightarrow>
         if w = 0 then NaN
         else Fin (v - w * of_int (if 0 \<le> v / w then \<lfloor>v / w\<rfloor> else \<lceil>v / w\<rceil>))
     | (Fin v, PInf) \<Rightarrow> Fin v
     | (Fin v, NInf) \<Rightarrow> Fin v
     | _ \<Rightarrow> NaN)"

text \<open>The comparisons \<open><\<close> and \<open>===\<close>: both are false when an operand is \<open>NaN\<close>.\<close>

definition flt :: "number \<Rightarrow> number \<Rightarrow> bool" where
  "flt x y = (case (x, y) of
       (Fin v, Fin w) \<Rightarrow> v < w
     | (NaN, _) \<Rightarrow> False
     | (_, NaN) \<Rightarrow> False
     | (NInf, NInf) \<Rightarrow> False
     | (NInf, _) \<Rightarrow> True
     | (PInf, _) \<Rightarrow> False
     | (Fin v, PInf) \<Rightarrow> True
     | (Fin v, NInf) \<Rightarrow> False)"

definition feq :: "number \<Rightarrow> number \<Rightarrow> bool" where
  "feq x y = (x \<noteq> NaN \<and> x = y)"

text \<open>A number used as a condition is true unless it is zero or \<open>NaN\<close>.\<close>

definition truthy :: "number \<Rightarrow> bool" where
  "truthy x = (x \<noteq> NaN \<and> x \<noteq> Fin 0)"

definition Math_max2 :: "number \<Rightarrow> number \<Rightarrow> number" where
  "Math_max2 x y = (if x = NaN \<or> y = NaN then NaN else if flt x y then y else x)"

definition Math_min2 :: "number \<Rightarrow> number \<Rightarrow> number" where
  "Math_min2 x y = (if x = NaN \<or> y = NaN then NaN else if flt y x then y else x)"

definition Math_max :: "number \<Rightarrow> number \<Rightarrow> number \<Rightarrow> number" where
  "Math_max x y z = Math_max2 (Math_max2 x y) z"

definition Math_min :: "number \<Rightarrow> number \<Rightarrow> number \<Rightarrow> number" where
  "Math_min x y z = Math_min2 (Math_min2 x y) z"

text \<open>\<open>Math.round\<close>: the nearest integer, a tie going up.\<close>

definition Math_round :: "number \<Rightarrow> number" where
  "Math_round x = (case x of Fin v \<Rightarrow> Fin (of_int \<lfloor>v + 1/2\<rfloor>) | _ \<Rightarrow> x)"

section \<open>Strings\<close>

text \<open>
  A string is the list of its UTF-16 code units, each a natural number; \<open>str\<close> gives the
  code units of a literal.
\<close>

type_synonym jstring = "nat list"

definition str :: "string \<Rightarrow> jstring" where
  "str s = map of_char s"

text \<open>
  The white space that \<open>trim\<close>, \<open>Number\<close>, \<open>parseInt\<close> and \<open>parseFloat\<close> skip is the
  white space and the line terminators of the language: TAB, LF, VT, FF, CR, the space,
  U+00A0, U+1680, U+2000 to U+200A, U+2028, U+2029, U+202F, U+205F, U+3000 and U+FEFF.
\<close>

definition is_ws :: "nat \<Rightarrow> bool" where
  "is_ws n = ((9 \<le> n \<and> n \<le> 13) \<or> n = 32 \<or> n = 160 \<or> n = 5760 \<or>
              (8192 \<le> n \<and> n \<le> 8202) \<or> n = 8232 \<or> n = 8233 \<or> n = 8239 \<or>
              n = 8287 \<or> n = 12288 \<or> n = 65279)"

definition trimStart :: "jstring \<Rightarrow> jstring" where
  "trimStart s = dropWhile is_ws s"

definition trim :: "jstring \<Rightarrow> jstring" where
  "trim s = rev (dropWhile is_ws (rev (dropWhile is_ws s)))"

text \<open>\<open>indexOf\<close>: the position of the first occurrence, or \<open>-1\<close>.\<close>

fun index_from :: "int \<Rightarrow> jstring \<Rightarrow> nat \<Rightarrow> int" where
  "index_from i [] c = - 1"
| "index_from i (x # xs) c = (if x = c then i else index_from (i + 1) xs c)"

definition indexOf :: "jstring \<Rightarrow> nat \<Rightarrow> int" where
  "indexOf s c = index_from 0 s c"

text \<open>\<open>slice\<close>: a negative bound counts from the end, and both bounds are clamped.\<close>

definition slice :: "jstring \<Rightarrow> int \<Rightarrow> int \<Rightarrow> jstring" where
  "slice s start stop =
     (let len = int (length s);
          from = (if start < 0 then max (len + start) 0 else min start len);
          to = (if stop < 0 then max (len + stop) 0 else min stop len)
      in take (nat (to - from)) (drop (nat from) s))"

text \<open>\<open>split\<close> on a one-character separator: the empty string gives one empty field.\<close>

fun split :: "jstring \<Rightarrow> nat \<Rightarrow> jstring list" where
  "split [] c = [[]]"
| "split (x # xs) c =
     (if x = c then [] # split xs c
      else (case split xs c of [] \<Rightarrow> [[x]] | f # fs \<Rightarrow> (x # f) # fs))"

text \<open>Reading an array element: \<open>None\<close> stands for \<open>undefined\<close>.\<close>

definition elem_at :: "'a list \<Rightarrow> nat \<Rightarrow> 'a option" where
  "elem_at xs i = (if i < length xs then Some (xs ! i) else None)"

definition padStart :: "nat \<Rightarrow> nat \<Rightarrow> jstring \<Rightarrow> jstring" where
  "padStart n c s = replicate (n - length s) c @ s"

subsection \<open>Digits\<close>

definition digit_of :: "nat \<Rightarrow> nat \<Rightarrow> nat option" where
  "digit_of radix n =
     (let v = (if 48 \<le> n \<and> n \<le> 57 then Some (n - 48)
               else if 97 \<le> n \<and> n \<le> 122 then Some (n - 87)
               else if 65 \<le> n \<and> n \<le> 90 then Some (n - 55)
               else None)
      in case v of None \<Rightarrow> None | Some k \<Rightarrow> if k < radix then Some k else None)"

definition is_digit :: "nat \<Rightarrow> nat \<Rightarrow> bool" where
  "is_digit radix c = (digit_of radix c \<noteq> None)"

definition digits_val :: "nat \<Rightarrow> jstring \<Rightarrow> nat" where
  "digits_val radix s = foldl (\<lambda>v c. v * radix + the (digit_of radix c)) 0 s"

definition digit_char :: "nat \<Rightarrow> nat" where
  "digit_char k = str ''0123456789abcdefghijklmnopqrstuvwxyz'' ! k"

function nat_to_string :: "nat \<Rightarrow> nat \<Rightarrow> jstring" where
  "nat_to_string radix n =
     (if n < radix \<or> radix < 2 then [digit_char n]
      else nat_to_string radix (n div radix) @ [digit_char (n mod radix)])"
  by pat_completeness auto
termination
  by (relation "measure snd") auto

declare nat_to_string.simps [simp del]

subsection \<open>Numbers to strings\<close>

text \<open>
  \<open>Number.prototype.toString(16)\<close>.  On an integer it gives the hexadecimal digits, with
  a minus sign for a negative one.  The digits after the point of a non-integer are left to
  the implementation by the language standard; the model writes the exact expansion, which is
  finite for every binary64 value (at most 1074 binary places).
\<close>

fun frac_digits :: "nat \<Rightarrow> nat \<Rightarrow> rat \<Rightarrow> jstring" where
  "frac_digits radix 0 f = []"
| "frac_digits radix (Suc fuel) f =
     (if f = 0 then []
      else (let d = \<lfloor>f * of_nat radix\<rfloor>
            in digit_char (nat d) # frac_digits radix fuel (f * of_nat radix - of_int d)))"

definition toString16 :: "number \<Rightarrow> jstring" where
  "toString16 x = (case x of
       NaN \<Rightarrow> str ''NaN''
     | PInf \<Rightarrow> str ''Infinity''
     | NInf \<Rightarrow> str ''-Infinity''
     | Fin v \<Rightarrow>
         (if v < 0 then str ''-'' else []) @ nat_to_string 16 (nat \<lfloor>\<bar>v\<bar>\<rfloor>) @
         (if frac \<bar>v\<bar> = 0 then [] else str ''.'' @ frac_digits 16 269 (frac \<bar>v\<bar>)))"

text \<open>
  \<open>Number.prototype.toString()\<close>: the shortest decimal digit string \<open>s\<close> (of \<open>k\<close>
  digits, scaled by \<open>10 ^ (n - k)\<close>) that reads back as the same number, the closest one
  when there are several.  17 digits always suffice for a binary64 value.
\<close>

fun shortest :: "nat \<Rightarrow> nat \<Rightarrow> rat \<Rightarrow> int \<Rightarrow> int \<times> int \<times> nat" where
  "shortest 0 k x n = (\<lfloor>x / 10 powi (n - int k)\<rfloor>, n, k)"
| "shortest (Suc fuel) k x n =
     (let w = 10 powi (n - int k);
          s1 = \<lfloor>x / w\<rfloor>;
          s2 = s1 + 1;
          ok1 = (rnd (of_int s1 * w) = x);
          ok2 = (rnd (of_int s2 * w) = x);
          d1 = x - of_int s1 * w;
          d2 = of_int s2 * w - x;
          pick = (if ok1 \<and> ok2 then (if d1 < d2 then s1 else if d2 < d1 then s2
                                         else if even s1 then s1 else s2)
                  else if ok1 then s1 else s2)
      in if ok1 \<or> ok2 then (if pick = 10 ^ k then (10 ^ (k - 1), n + 1, k) else (pick, n, k))
         else shortest fuel (Suc k) x n)"

definition pos_to_string :: "rat \<Rightarrow> jstring" where
  "pos_to_string x =
     (case shortest 17 1 x (ilog 10 x + 1) of (s, n, k) \<Rightarrow>
        let ds = nat_to_string 10 (nat s);
            ex = (if 0 \<le> n - 1 then str ''+'' else str ''-'') @ nat_to_string 10 (nat \<bar>n - 1\<bar>)
        in if int k \<le> n \<and> n \<le> 21 then ds @ replicate (nat (n - int k)) (of_char CHR ''0'')
           else if 0 < n \<and> n \<le> 21 then take (nat n) ds @ str ''.'' @ drop (nat n) ds
           else if - 6 < n \<and> n \<le> 0 then str ''0.'' @ replicate (nat (- n)) (of_char CHR ''0'') @ ds
           else if k = 1 then ds @ str ''e'' @ ex
           else take 1 ds @ str ''.'' @ drop 1 ds @ str ''e'' @ ex)"

definition toString :: "number \<Rightarrow> jstring" where
  "toString x = (case x of
       NaN \<Rightarrow> str ''NaN''
     | PInf \<Rightarrow> str ''Infinity''
     | NInf \<Rightarrow> str ''-Infinity''
     | Fin v \<Rightarrow> if v = 0 then str ''0'' else if v < 0 then str ''-'' @ pos_to_string (- v)
                else pos_to_string v)"

text \<open>
  \<open>toFixed(3)\<close>: the integer \<open>n\<close> with \<open>n / 1000\<close> closest to the value (the larger one
  on a tie), written with three digits after the point; from \<open>10 ^ 21\<close> on, and for a value
  that is not finite, the result of \<open>toString\<close>.
\<close>

definition toFixed3 :: "number \<Rightarrow> jstring" where
  "toFixed3 x = (case x of
       Fin v \<Rightarrow>
         if 10 ^ 21 \<le> \<bar>v\<bar> then toString x
         else (let m = padStart 4 (of_char CHR ''0'') (nat_to_string 10 (nat \<lfloor>\<bar>v\<bar> * 1000 + 1/2\<rfloor>))
               in (if v < 0 then str ''-'' else []) @
                  take (length m - 3) m @ str ''.'' @ drop (length m - 3) m)
     | _ \<Rightarrow> toString x)"

subsection \<open>Strings to numbers\<close>

text \<open>
  \<open>parseInt(s, 16)\<close>: leading white space, a sign and a \<open>0x\<close> prefix are skipped, then the
  longest run of hexadecimal digits is read; with no digit the result is \<open>NaN\<close>.
\<close>

definition parseInt16 :: "jstring \<Rightarrow> number" where
  "parseInt16 s =
     (let s1 = trimStart s;
          neg = (take 1 s1 = str ''-'');
          s2 = (if take 1 s1 = str ''-'' \<or> take 1 s1 = str ''+'' then drop 1 s1 else s1);
          s3 = (if take 2 s2 = str ''0x'' \<or> take 2 s2 = str ''0X'' then drop 2 s2 else s2);
          z = takeWhile (is_digit 16) s3
      in if z = [] then NaN
         else fin ((if neg then - 1 else 1) * of_nat (digits_val 16 z)))"

text \<open>An optionally signed run of decimal digits (the exponent of a literal).\<close>

definition signed_int :: "jstring \<Rightarrow> int option" where
  "signed_int s =
     (let neg = (take 1 s = str ''-'');
          ds = (if take 1 s = str ''-'' \<or> take 1 s = str ''+'' then drop 1 s else s)
      in if ds \<noteq> [] \<and> list_all (is_digit 10) ds
         then Some ((if neg then - 1 else 1) * int (digits_val 10 ds)) else None)"

text \<open>
  The value of an unsigned decimal literal: digits, an optional point and fraction digits
  (one of the two digit runs may be empty), an optional exponent.
\<close>

definition unsigned_decimal :: "jstring \<Rightarrow> rat option" where
  "unsigned_decimal s =
     (let ip = takeWhile (is_digit 10) s;
          r1 = dropWhile (is_digit 10) s;
          fp = (if take 1 r1 = str ''.'' then takeWhile (is_digit 10) (drop 1 r1) else []);
          r2 = (if take 1 r1 = str ''.'' then dropWhile (is_digit 10) (drop 1 r1) else r1);
          m = rat_of_nat (digits_val 10 (ip @ fp)) / 10 ^ length fp
      in if ip = [] \<and> fp = [] then None
         else if r2 = [] then Some m
         else if take 1 r2 = str ''e'' \<or> take 1 r2 = str ''E''
           then (case signed_int (drop 1 r2) of None \<Rightarrow> None | Some k \<Rightarrow> Some (m * 10 powi k))
         else None)"

text \<open>A run of digits of the given radix, all of the string, as an integer literal.\<close>

definition radix_literal :: "nat \<Rightarrow> jstring \<Rightarrow> number" where
  "radix_literal radix s =
     (if s \<noteq> [] \<and> list_all (is_digit radix) s then fin (of_nat (digits_val radix s)) else NaN)"

text \<open>
  \<open>Number(v)\<close> for a string or \<open>undefined\<close>.  White space around the literal is skipped; the
  empty string is \<open>0\<close>; the literal is decimal (signed, with fraction and exponent),
  \<open>Infinity\<close>, or an unsigned binary, octal or hexadecimal integer; anything else is \<open>NaN\<close>.
\<close>

definition Number :: "jstring option \<Rightarrow> number" where
  "Number v = (case v of
       None \<Rightarrow> NaN
     | Some s \<Rightarrow>
         (let t = trim s;
              neg = (take 1 t = str ''-'');
              u = (if take 1 t = str ''-'' \<or> take 1 t = str ''+'' then drop 1 t else t)
          in if t = [] then Fin 0
             else if take 2 t = str ''0x'' \<or> take 2 t = str ''0X'' then radix_literal 16 (drop 2 t)
             else if take 2 t = str ''0o'' \<or> take 2 t = str ''0O'' then radix_literal 8 (drop 2 t)
             else if take 2 t = str ''0b'' \<or> take 2 t = str ''0B'' then radix_literal 2 (drop 2 t)
             else if u = str ''Infinity'' then (if neg then NInf else PInf)
             else (case unsigned_decimal u of
                     None \<Rightarrow> NaN
                   | Some m \<Rightarrow> fin (if neg then - m else m))))"

text \<open>
  \<open>parseFloat\<close> reads the longest prefix that is a decimal literal (after leading white
  space), and gives \<open>NaN\<close> when there is none.
\<close>

definition parseFloat :: "jstring \<Rightarrow> number" where
  "parseFloat s =
     (let t = trimStart s;
          neg = (take 1 t = str ''-'');
          u = (if take 1 t = str ''-'' \<or> take 1 t = str ''+'' then drop 1 t else t);
          ip = takeWhile (is_digit 10) u;
          r1 = dropWhile (is_digit 10) u;
          fp = (if take 1 r1 = str ''.'' then takeWhile (is_digit 10) (drop 1 r1) else []);
          r2 = (if take 1 r1 = str ''.'' then dropWhile (is_digit 10) (drop 1 r1) else r1);
          m = rat_of_nat (digits_val 10 (ip @ fp)) / 10 ^ length fp;
          r3 = drop 1 r2;
          eneg = (take 1 r3 = str ''-'');
          ed = takeWhile (is_digit 10)
                 (if take 1 r3 = str ''-'' \<or> take 1 r3 = str ''+'' then drop 1 r3 else r3);
          ex = (if (take 1 r2 = str ''e'' \<or> take 1 r2 = str ''E'') \<and> ed \<noteq> []
                then (if eneg then - 1 else 1) * int (digits_val 10 ed) else 0)
      in if take 8 u = str ''Infinity'' then (if neg then NInf else PInf)
         else if ip = [] \<and> fp = [] then NaN
         else fin ((if neg then - 1 else 1) * m * 10 powi ex))"

section \<open>The class \<open>UColor\<close>\<close>

record UColor =
  r :: number
  g :: number
  b :: number
  a :: number

text \<open>The constructor stores the four channels as they are.\<close>

definition new_UColor :: "number \<Rightarrow> number \<Rightarrow> number \<Rightarrow> number \<Rightarrow> UColor" where
  "new_UColor r' g' b' a' = \<lparr>r = r', g = g', b = b', a = a'\<rparr>"

definition fromHEX :: "jstring \<Rightarrow> UColor" where
  "fromHEX hexString =
     (let r' = parseInt16 (slice hexString 1 3);
          g' = parseInt16 (slice hexString 3 5);
          b' = parseInt16 (slice hexString 5 7);
          a' = (if length hexString = 9
                then parseFloat (toFixed3 (fdiv (parseInt16 (slice hexString 7 9)) (Fin 255)))
                else Fin 1)
      in new_UColor r' g' b' a')"

definition fromRGBA :: "jstring \<Rightarrow> UColor" where
  "fromRGBA rgbaString =
     (let rgbContent = slice (trim rgbaString) (indexOf rgbaString (of_char CHR ''('') + 1) (- 1);
          rgbParts = split rgbContent (of_char CHR '','');
          r' = Number (elem_at rgbParts 0);
          g' = Number (elem_at rgbParts 1);
          b' = Number (elem_at rgbParts 2);
          a' = (if truthy (Number (elem_at rgbParts 3)) then Number (elem_at rgbParts 3)
                else Fin 1)
      in new_UColor r' g' b' a')"

definition decToHex :: "number \<Rightarrow> jstring" where
  "decToHex dec = padStart 2 (of_char CHR ''0'') (toString16 dec)"

definition toHEX :: "UColor \<Rightarrow> jstring" where
  "toHEX c =
     (let rHex = decToHex (r c);
          gHex = decToHex (g c);
          bHex = decToHex (b c)
      in if feq (a c) (Fin 1) then str ''#'' @ rHex @ gHex @ bHex
         else (let aHex = decToHex (Math_round (fmul (a c) (Fin 255)))
               in str ''#'' @ rHex @ gHex @ bHex @ aHex))"

definition toRGBA :: "UColor \<Rightarrow> jstring" where
  "toRGBA c = str ''rgba('' @ toString (r c) @ str '', '' @ toString (g c) @ str '', '' @
              toString (b c) @ str '', '' @ toString (a c) @ str '')''"

definition etGrayScale :: "UColor \<Rightarrow> UColor" where
  "etGrayScale c =
     (let gray = Math_round (fadd (fadd (fmul (r c) (fin (299/1000))) (fmul (g c) (fin (587/1000))))
                                  (fmul (b c) (fin (114/1000))))
      in new_UColor gray gray gray (a c))"

text \<open>The HSL triple \<open>{h, s, l}\<close> and the RGB triple \<open>{r, g, b}\<close> are tuples.\<close>

definition rgbToHsl :: "UColor \<Rightarrow> number \<times> number \<times> number" where
  "rgbToHsl c =
     (let r' = fdiv (r c) (Fin 255);
          g' = fdiv (g c) (Fin 255);
          b' = fdiv (b c) (Fin 255);
          maxv = Math_max r' g' b';
          minv = Math_min r' g' b';
          l = fdiv (fadd maxv minv) (Fin 2)
      in if feq maxv minv then (Fin 0, Fin 0, l)
         else (let d = fsub maxv minv;
                   s = (if flt (Fin (1/2)) l then fdiv d (fsub (fsub (Fin 2) maxv) minv)
                        else fdiv d (fadd maxv minv));
                   h = (if feq maxv r' then fadd (fdiv (fsub g' b') d)
                                                 (if flt g' b' then Fin 6 else Fin 0)
                        else if feq maxv g' then fadd (fdiv (fsub b' r') d) (Fin 2)
                        else if feq maxv b' then fadd (fdiv (fsub r' g') d) (Fin 4)
                        else NaN)
               in (fmul h (Fin 60), s, l)))"

definition hueToRgb :: "number \<Rightarrow> number \<Rightarrow> number \<Rightarrow> number" where
  "hueToRgb p q t =
     (let t1 = (if flt t (Fin 0) then fadd t (Fin 1) else t);
          t2 = (if flt (Fin 1) t1 then fsub t1 (Fin 1) else t1)
      in if flt t2 (fdiv (Fin 1) (Fin 6)) then fadd p (fmul (fmul (fsub q p) (Fin 6)) t2)
         else if flt t2 (fdiv (Fin 1) (Fin 2)) then q
         else if flt t2 (fdiv (Fin 2) (Fin 3))
           then fadd p (fmul (fmul (fsub q p) (fsub (fdiv (Fin 2) (Fin 3)) t2)) (Fin 6))
         else p)"

definition hslToRgb :: "number \<Rightarrow> number \<Rightarrow> number \<Rightarrow> number \<times> number \<times> number" where
  "hslToRgb h s l =
     (case (if feq s (Fin 0) then (l, l, l)
            else (let q = (if flt l (Fin (1/2)) then fmul l (fadd (Fin 1) s)
                           else fsub (fadd l s) (fmul l s));
                      p = fsub (fmul (Fin 2) l) q
                  in (hueToRgb p q (fadd (fdiv h (Fin 360)) (fdiv (Fin 1) (Fin 3))),
                      hueToRgb p q (fdiv h (Fin 360)),
                      hueToRgb p q (fsub (fdiv h (Fin 360)) (fdiv (Fin 1) (Fin 3))))))
      of (r', g', b') \<Rightarrow>
        (Math_round (fmul r' (Fin 255)), Math_round (fmul g' (Fin 255)),
         Math_round (fmul b' (Fin 255))))"

definition getContrastColor :: "UColor \<Rightarrow> UColor" where
  "getContrastColor c =
     (case rgbToHsl c of (h, s, l) \<Rightarrow>
        (case hslToRgb (fmod (fadd h (Fin 180)) (Fin 360)) s l of (r', g', b') \<Rightarrow>
           new_UColor r' g' b' (a c)))"

definition getPalette :: "UColor \<Rightarrow> UColor list" where
  "getPalette c =
     (case rgbToHsl c of (h, s, l) \<Rightarrow>
        (let h2 = fmod (fadd h (Fin 120)) (Fin 360);
             h3 = fmod (fadd h (Fin 240)) (Fin 360)
         in (case hslToRgb h2 s l of (r2, g2, b2) \<Rightarrow>
            (case hslToRgb h3 s l of (r3, g3, b3) \<Rightarrow>
               [c, new_UColor r2 g2 b2 (a c), new_UColor r3 g3 b3 (a c)]))))"

section \<open>Auxiliary definitions\<close>

text \<open>
  The weighted sum that \<open>etGrayScale\<close> rounds, on finite channels and when no operation
  overflows: the three weights are the binary64 values of the literals \<open>0.299\<close>,
  \<open>0.587\<close> and \<open>0.114\<close>, and every product and sum is rounded.
\<close>

definition luma :: "rat \<Rightarrow> rat \<Rightarrow> rat \<Rightarrow> rat" where
  "luma x y z = rnd (rnd (rnd (x * (5386305154335113 / 18014398509481984)) +
                         rnd (y * (2643612981266481 / 4503599627370496))) +
                    rnd (z * (8214565720323785 / 72057594037927936)))"

text \<open>
  The distance of a rational to the nearest integer, and the ideal (exact, real-arithmetic)
  value of the hue helper for \<open>p = 0\<close>, \<open>q = 1\<close>: a trapezoid of period \<open>1\<close> that is
  \<open>1\<close> around a third of a turn and \<open>0\<close> around five sixths of a turn.
\<close>

definition cdist :: "rat \<Rightarrow> rat" where
  "cdist x = \<bar>x - of_int (round x)\<bar>"

definition trap :: "rat \<Rightarrow> rat" where
  "trap x = max 0 (min 1 (2 - 6 * cdist (x - 1/3)))"

text \<open>The binary64 quotient \<open>n / 255\<close> of a channel.\<close>

definition unit255 :: "nat \<Rightarrow> rat" where
  "unit255 n = rnd (of_nat n / 255)"

text \<open>
  The ideal hue of integer channels, in sixths of a turn (the value of \<open>h\<close> in \<open>rgbToHsl\<close>
  before the multiplication by \<open>60\<close>, in exact arithmetic), for channels that are not all
  equal.
\<close>

definition hue6 :: "nat \<Rightarrow> nat \<Rightarrow> nat \<Rightarrow> rat" where
  "hue6 R G B =
     (let M = max (max R G) B; m = min (min R G) B; d = of_nat M - of_nat m
      in if M = R then (of_nat G - of_nat B) / d + (if G < B then 6 else 0)
         else if M = G then (of_nat B - of_nat R) / d + 2
         else (of_nat R - of_nat G) / d + 4)"

text \<open>
  The channel values met when the hue of a colour goes round by sixths of a turn: the
  channels themselves at the even steps, their complements with respect to the sum of the
  largest and the smallest channel at the odd steps.
\<close>

definition wheel :: "nat \<Rightarrow> nat \<Rightarrow> nat \<Rightarrow> int \<Rightarrow> int" where
  "wheel R G B j =
     (let S = int (max (max R G) B) + int (min (min R G) B)
      in [int G, S - int B, int R, S - int G, int B, S - int R] ! nat (j mod 6))"

section \<open>Rounding: error bounds, exact values, monotonicity\<close>

lemma ilog_bounds:
  assumes "0 < x" "1 < bs"
  shows "rat_of_nat bs powi (ilog bs x) \<le> x \<and> x < rat_of_nat bs powi (ilog bs x + 1)"
proof -
  obtain n d where q: "quotient_of x = (n, d)" by (cases "quotient_of x")
  then have x: "x = of_int n / of_int d" and d: "0 < d"
    by (auto simp: quotient_of_div quotient_of_denom_pos)
  from x d assms have n: "0 < n" by (simp add: zero_less_divide_iff)
  define fn where "fn = floorlog bs (nat n)"
  define fd where "fd = floorlog bs (nat d)"
  define B where "B = rat_of_nat bs"
  have B1: "1 < B" using assms by (simp add: B_def)
  from floorlog_bounds[of "nat n" bs] n assms
  have bn: "bs ^ (fn - 1) \<le> nat n" "nat n < bs ^ fn" by (auto simp: fn_def)
  from floorlog_bounds[of "nat d" bs] d assms
  have bd: "bs ^ (fd - 1) \<le> nat d" "nat d < bs ^ fd" by (auto simp: fd_def)
  have fn1: "1 \<le> fn" using n assms by (auto simp: fn_def floorlog_def)
  have fd1: "1 \<le> fd" using d assms by (auto simp: fd_def floorlog_def)
  have rn: "B ^ (fn - 1) \<le> of_int n" "of_int n < B ^ fn"
  proof -
    have "rat_of_nat (bs ^ (fn - 1)) \<le> rat_of_nat (nat n)" using bn(1) by (simp only: of_nat_le_iff)
    then show "B ^ (fn - 1) \<le> of_int n" using n by (simp add: B_def)
    have "rat_of_nat (nat n) < rat_of_nat (bs ^ fn)" using bn(2) by (simp only: of_nat_less_iff)
    then show "of_int n < B ^ fn" using n by (simp add: B_def)
  qed
  have rd: "B ^ (fd - 1) \<le> of_int d" "of_int d < B ^ fd"
  proof -
    have "rat_of_nat (bs ^ (fd - 1)) \<le> rat_of_nat (nat d)" using bd(1) by (simp only: of_nat_le_iff)
    then show "B ^ (fd - 1) \<le> of_int d" using d by (simp add: B_def)
    have "rat_of_nat (nat d) < rat_of_nat (bs ^ fd)" using bd(2) by (simp only: of_nat_less_iff)
    then show "of_int d < B ^ fd" using d by (simp add: B_def)
  qed
  define k where "k = int fn - int fd"
  have Bpos: "0 < B" using B1 by simp
  have k1: "k - 1 = int (fn - 1) - int fd" using fn1 by (simp add: k_def)
  have k2: "k + 1 = int fn - int (fd - 1)" using fd1 by (simp add: k_def)
  have p1: "B powi (k - 1) = B ^ (fn - 1) / B ^ fd"
    unfolding k1 using Bpos by (subst power_int_diff) simp_all
  have p2: "B powi (k + 1) = B ^ fn / B ^ (fd - 1)"
    unfolding k2 using Bpos by (subst power_int_diff) simp_all
  have dpos: "0 < rat_of_int d" using d by simp
  have lo: "B powi (k - 1) < x"
  proof -
    have "B ^ (fn - 1) / B ^ fd \<le> of_int n / B ^ fd"
      using rn(1) Bpos by (simp add: divide_right_mono)
    also have "\<dots> < of_int n / of_int d"
      using rd(2) n dpos by (intro divide_strict_left_mono) (simp_all add: Bpos)
    finally show ?thesis by (simp add: p1 x)
  qed
  have hi: "x < B powi (k + 1)"
  proof -
    have "of_int n / of_int d < B ^ fn / of_int d"
      using rn(2) dpos by (simp add: divide_strict_right_mono)
    also have "\<dots> \<le> B ^ fn / B ^ (fd - 1)"
      using rd(1) Bpos d by (intro divide_left_mono) (simp_all add: zero_less_mult_iff)
    finally show ?thesis by (simp add: p2 x)
  qed
  have il: "ilog bs x = (if B powi k \<le> x then k else k - 1)"
    by (simp add: ilog_def q Let_def k_def fn_def fd_def B_def)
  have step: "B powi (k + 1) = B powi k * B" "B powi k = B powi (k - 1) * B"
    using Bpos by (simp_all add: power_int_add power_int_diff)
  show ?thesis
  proof (cases "B powi k \<le> x")
    case True
    then show ?thesis using hi il by (simp add: B_def)
  next
    case False
    then have "x < B powi k" by simp
    moreover have "B powi (k - 1) \<le> x" using lo by simp
    ultimately show ?thesis using il False by (simp add: B_def)
  qed
qed


lemma ilog_unique:
  assumes "0 < x" "1 < bs" "rat_of_nat bs powi e \<le> x" "x < rat_of_nat bs powi (e + 1)"
  shows "ilog bs x = e"
proof -
  define B where "B = rat_of_nat bs"
  have B1: "1 < B" using assms(2) by (simp add: B_def)
  have kb: "B powi (ilog bs x) \<le> x" "x < B powi (ilog bs x + 1)"
    using ilog_bounds[OF assms(1,2)] by (simp_all add: B_def)
  have "\<not> ilog bs x < e"
  proof
    assume "ilog bs x < e"
    then have "ilog bs x + 1 \<le> e" by simp
    then have "B powi (ilog bs x + 1) \<le> B powi e"
      using B1 by (intro power_int_increasing) simp_all
    with kb(2) assms(3) show False by (simp add: B_def)
  qed
  moreover have "\<not> e < ilog bs x"
  proof
    assume "e < ilog bs x"
    then have "e + 1 \<le> ilog bs x" by simp
    then have "B powi (e + 1) \<le> B powi (ilog bs x)"
      using B1 by (intro power_int_increasing) simp_all
    with kb(1) assms(4) show False by (simp add: B_def)
  qed
  ultimately show ?thesis by simp
qed

lemma ilog2_bounds:
  assumes "0 < x"
  shows "2 powi (ilog 2 x) \<le> x" "x < 2 powi (ilog 2 x + 1)"
  using ilog_bounds[OF assms, of 2] by simp_all

lemma ilog2_unique: "0 < x \<Longrightarrow> 2 powi e \<le> x \<Longrightarrow> x < 2 powi (e + 1) \<Longrightarrow> ilog 2 x = e"
  using ilog_unique[of x 2 e] by simp

lemma ilog2_mono:
  assumes "0 < x" "x \<le> y"
  shows "ilog 2 x \<le> ilog 2 y"
proof (rule ccontr)
  assume "\<not> ilog 2 x \<le> ilog 2 y"
  then have "ilog 2 y + 1 \<le> ilog 2 x" by simp
  then have "(2::rat) powi (ilog 2 y + 1) \<le> 2 powi (ilog 2 x)"
    by (intro power_int_increasing) simp_all
  moreover have "0 < y" using assms by simp
  ultimately show False
    using ilog2_bounds(1)[OF assms(1)] ilog2_bounds(2)[of y] assms(2) by simp
qed

lemma round_even_of_int [simp]: "round_even (of_int n) = n"
  by (simp add: round_even_def)

lemma round_even_err: "\<bar>of_int (round_even x) - x\<bar> \<le> 1/2"
proof -
  have "of_int \<lfloor>x\<rfloor> \<le> x" "x < of_int \<lfloor>x\<rfloor> + 1" by linarith+
  then show ?thesis by (auto simp: round_even_def Let_def)
qed

lemma round_even_le:
  assumes "x \<le> of_int n"
  shows "round_even x \<le> n"
proof -
  have f: "\<lfloor>x\<rfloor> \<le> n" using assms by (simp add: floor_le_iff)
  show ?thesis
  proof (cases "\<lfloor>x\<rfloor> = n")
    case True
    moreover have "of_int \<lfloor>x\<rfloor> \<le> x" by (rule of_int_floor_le)
    ultimately have "x = of_int n" using assms by simp
    then show ?thesis by simp
  next
    case False
    with f have "\<lfloor>x\<rfloor> + 1 \<le> n" by simp
    then show ?thesis by (auto simp: round_even_def Let_def)
  qed
qed

lemma round_even_ge:
  assumes "of_int n \<le> x"
  shows "n \<le> round_even x"
proof -
  have "n \<le> \<lfloor>x\<rfloor>" using assms by (simp add: le_floor_iff)
  then show ?thesis by (auto simp: round_even_def Let_def)
qed

lemma round_even_mono:
  assumes "x \<le> y"
  shows "round_even x \<le> round_even y"
proof (cases "\<lfloor>x\<rfloor> = \<lfloor>y\<rfloor>")
  case True
  then show ?thesis using assms by (auto simp: round_even_def Let_def)
next
  case False
  then have "\<lfloor>x\<rfloor> + 1 \<le> \<lfloor>y\<rfloor>" using assms floor_mono[OF assms] by simp
  then have "of_int (\<lfloor>x\<rfloor> + 1) \<le> y" by (simp add: le_floor_iff)
  then have "\<lfloor>x\<rfloor> + 1 \<le> round_even y" by (rule round_even_ge)
  moreover have "round_even x \<le> \<lfloor>x\<rfloor> + 1" by (auto simp: round_even_def Let_def)
  ultimately show ?thesis by simp
qed

lemma round_even_minus: "round_even (- x) = - round_even x"
proof (cases "x = of_int \<lfloor>x\<rfloor>")
  case True
  then obtain n where "x = of_int n" ..
  then have "- x = of_int (- n)" by simp
  then show ?thesis unfolding \<open>x = of_int n\<close> by (simp only: round_even_of_int)
next
  case False
  define n where "n = \<lfloor>x\<rfloor>"
  define f where "f = x - of_int n"
  have "\<lceil>x\<rceil> = n + 1" using False by (simp add: ceiling_altdef n_def)
  then have fl: "\<lfloor>- x\<rfloor> = - n - 1" by (simp add: floor_minus)
  have d: "- x - of_int (- n - 1) = 1 - f" by (simp add: f_def)
  have r1: "round_even x = (if f < 1/2 then n else if 1/2 < f then n + 1
                            else if even n then n else n + 1)"
    by (simp add: round_even_def Let_def n_def f_def)
  have r2: "round_even (- x) = (if 1 - f < 1/2 then - n - 1 else if 1/2 < 1 - f then - n - 1 + 1
                            else if even (- n - 1) then - n - 1 else - n - 1 + 1)"
    unfolding round_even_def Let_def fl d by simp
  consider "f < 1/2" | "1/2 < f" | "f = 1/2" by linarith
  then show ?thesis
  proof cases
    case 1
    then show ?thesis unfolding r1 r2 by simp
  next
    case 2
    then show ?thesis unfolding r1 r2 by simp
  next
    case 3
    then show ?thesis unfolding r1 r2 by simp
  qed
qed


lemma ulp_pos [simp]: "0 < ulp x"
  by (simp add: ulp_def power_int_def)

lemma ulp_nonzero [simp]: "ulp x \<noteq> 0"
  by (simp add: ulp_def)

lemma ulp_nonneg [simp]: "0 \<le> ulp x"
  by (simp add: ulp_def)

lemma expo_minus [simp]: "expo (- x) = expo x"
  by (simp add: expo_def)

lemma ulp_minus [simp]: "ulp (- x) = ulp x"
  by (simp add: ulp_def)

lemma rnd_0 [simp]: "rnd 0 = 0"
  by (simp add: rnd_def)

lemma rnd_minus: "rnd (- x) = - rnd x"
  using round_even_minus[of "x / ulp x"] by (simp add: rnd_def)

lemma expo_ge: "- 1022 \<le> expo x"
  by (simp add: expo_def)

lemma abs_less_expo:
  assumes "x \<noteq> 0"
  shows "\<bar>x\<bar> < 2 powi (expo x + 1)"
proof -
  have "\<bar>x\<bar> < 2 powi (ilog 2 \<bar>x\<bar> + 1)" using assms by (intro ilog2_bounds) simp
  also have "\<dots> \<le> 2 powi (expo x + 1)"
    by (intro power_int_increasing) (simp_all add: expo_def)
  finally show ?thesis .
qed

lemma expo_normal:
  assumes "2 powi (- 1022) \<le> \<bar>x\<bar>"
  shows "expo x = ilog 2 \<bar>x\<bar>" "2 powi (expo x) \<le> \<bar>x\<bar>"
proof -
  have pos: "0 < \<bar>x\<bar>"
    using assms by (rule less_le_trans[rotated]) simp
  have "\<not> ilog 2 \<bar>x\<bar> < - 1022"
  proof
    assume "ilog 2 \<bar>x\<bar> < - 1022"
    then have "ilog 2 \<bar>x\<bar> + 1 \<le> - 1022" by simp
    then have "(2::rat) powi (ilog 2 \<bar>x\<bar> + 1) \<le> 2 powi (- 1022)"
      by (intro power_int_increasing) simp_all
    with ilog2_bounds(2)[OF pos] assms show False by simp
  qed
  then show "expo x = ilog 2 \<bar>x\<bar>" by (simp add: expo_def)
  then show "2 powi (expo x) \<le> \<bar>x\<bar>" using ilog2_bounds(1)[OF pos] by simp
qed

lemma expo_le:
  assumes "\<bar>x\<bar> \<le> 2 powi E" "- 1022 \<le> E" "x \<noteq> 0"
  shows "expo x \<le> E"
proof -
  have pos: "0 < \<bar>x\<bar>" using assms by simp
  have "\<not> E < ilog 2 \<bar>x\<bar>"
  proof
    assume "E < ilog 2 \<bar>x\<bar>"
    then have "E + 1 \<le> ilog 2 \<bar>x\<bar>" by simp
    then have "(2::rat) powi (E + 1) \<le> 2 powi (ilog 2 \<bar>x\<bar>)"
      by (intro power_int_increasing) simp_all
    moreover have "(2::rat) powi E < 2 powi (E + 1)"
      by (intro power_int_strict_increasing) simp_all
    ultimately show False using ilog2_bounds(1)[OF pos] assms(1) by simp
  qed
  then show ?thesis using assms(2) by (simp add: expo_def)
qed

lemma ulp_mult: "ulp x * 2 ^ 53 = 2 powi (expo x + 1)"
proof -
  have "(2::rat) powi (expo x + 1) = 2 powi ((expo x - 52) + 53)"
    by (rule arg_cong[where f = "power_int 2"]) simp
  also have "\<dots> = 2 powi (expo x - 52) * 2 powi 53"
    by (subst power_int_add) simp_all
  finally show ?thesis by (simp add: ulp_def)
qed

lemma ulp_mult': "ulp x * 2 ^ 52 = 2 powi (expo x)"
proof -
  have "(2::rat) powi (expo x) = 2 powi ((expo x - 52) + 52)"
    by (rule arg_cong[where f = "power_int 2"]) simp
  also have "\<dots> = 2 powi (expo x - 52) * 2 powi 52"
    by (subst power_int_add) simp_all
  finally show ?thesis by (simp add: ulp_def)
qed

lemma scaled_less:
  assumes "x \<noteq> 0"
  shows "\<bar>x / ulp x\<bar> < 2 ^ 53"
proof -
  have "\<bar>x\<bar> < ulp x * 2 ^ 53" using abs_less_expo[OF assms] ulp_mult[of x] by simp
  then show ?thesis by (simp add: pos_divide_less_eq mult.commute)
qed

lemma rnd_err: "\<bar>rnd x - x\<bar> \<le> ulp x / 2"
proof (cases "x = 0")
  case True
  then show ?thesis using less_imp_le[OF ulp_pos[of 0]] by simp
next
  case False
  have u: "ulp x \<noteq> 0" by simp
  have "rnd x - x = (of_int (round_even (x / ulp x)) - x / ulp x) * ulp x"
    using False u by (simp add: rnd_def left_diff_distrib)
  then have "\<bar>rnd x - x\<bar> = \<bar>of_int (round_even (x / ulp x)) - x / ulp x\<bar> * ulp x"
    by (simp add: abs_mult abs_of_pos)
  also have "\<dots> \<le> 1/2 * ulp x"
    by (intro mult_right_mono round_even_err ulp_nonneg)
  finally show ?thesis by simp
qed

lemma rnd_nonneg:
  assumes "0 \<le> x"
  shows "0 \<le> rnd x"
proof -
  have "0 \<le> x / ulp x" using assms by (simp add: zero_le_divide_iff less_imp_le)
  then have "0 \<le> round_even (x / ulp x)" using round_even_ge[of 0 "x / ulp x"] by simp
  then show ?thesis by (simp add: rnd_def less_imp_le)
qed

lemma rnd_nonpos: "x \<le> 0 \<Longrightarrow> rnd x \<le> 0"
  using rnd_nonneg[of "- x"] by (simp add: rnd_minus)

lemma rnd_abs_err:
  assumes "\<bar>x\<bar> \<le> 2 powi E" "- 1022 \<le> E"
  shows "\<bar>rnd x - x\<bar> \<le> 2 powi (E - 53)"
proof (cases "x = 0")
  case True
  then show ?thesis by simp
next
  case False
  have "ulp x \<le> 2 powi (E - 52)"
    unfolding ulp_def using expo_le[OF assms False] by (intro power_int_increasing) simp_all
  also have "(2::rat) powi (E - 52) = 2 powi ((E - 53) + 1)" by simp
  also have "\<dots> = 2 powi (E - 53) * 2" by (subst power_int_add) simp_all
  finally show ?thesis using rnd_err[of x] by simp
qed

lemma rnd_rel_err:
  assumes "2 powi (- 1022) \<le> \<bar>x\<bar>"
  shows "\<bar>rnd x - x\<bar> \<le> \<bar>x\<bar> / 2 ^ 53"
proof -
  have "ulp x * 2 ^ 52 \<le> \<bar>x\<bar>" using expo_normal(2)[OF assms] ulp_mult'[of x] by simp
  then have "ulp x / 2 \<le> \<bar>x\<bar> / 2 ^ 53" by (simp add: field_simps)
  with rnd_err[of x] show ?thesis by simp
qed


lemma rnd_of_scaled_int:
  assumes "x \<noteq> 0" "x / ulp x = of_int N"
  shows "rnd x = x"
proof -
  have "rnd x = of_int N * ulp x" using assms by (simp add: rnd_def)
  also have "\<dots> = x" using assms(2)[symmetric] by simp
  finally show ?thesis .
qed

lemma rnd_exact:
  assumes "\<bar>m\<bar> \<le> 2 ^ 53" "- 1074 \<le> j"
  shows "rnd (of_int m * 2 powi j) = of_int m * 2 powi j"
proof -
  define x :: rat where "x = of_int m * 2 powi j"
  show ?thesis
  proof (cases "x = 0")
    case True
    then show ?thesis by (simp add: x_def)
  next
    case False
    have "\<exists>N. x / ulp x = of_int N"
    proof (cases "expo x - 52 \<le> j")
      case True
      have "x / ulp x = of_int m * (2 powi j / 2 powi (expo x - 52))"
        by (simp add: x_def ulp_def)
      also have "2 powi j / 2 powi (expo x - 52) = (2::rat) powi (j - (expo x - 52))"
        by (subst power_int_diff) simp_all
      also have "\<dots> = 2 ^ nat (j - (expo x - 52))"
        using True by (simp add: power_int_def)
      also have "of_int m * 2 ^ nat (j - (expo x - 52)) = rat_of_int (m * 2 ^ nat (j - (expo x - 52)))"
        by simp
      finally show ?thesis by blast
    next
      case c: False
      then have e: "expo x = ilog 2 \<bar>x\<bar>" using assms(2) by (simp add: expo_def)
      have "0 < \<bar>x\<bar>" using False by simp
      then have lo: "2 powi (expo x) \<le> \<bar>x\<bar>" using ilog2_bounds(1)[of "\<bar>x\<bar>"] e by simp
      have "\<bar>x\<bar> = of_int \<bar>m\<bar> * 2 powi j" by (simp add: x_def abs_mult power_int_def)
      also have "\<dots> \<le> of_int (2 ^ 53) * 2 powi j"
        using assms(1) by (intro mult_right_mono) (simp_all only: of_int_le_iff, simp)
      also have "\<dots> = 2 powi 53 * 2 powi j" by simp
      also have "\<dots> = 2 powi (53 + j)" by (subst power_int_add) simp_all
      also have "\<dots> \<le> 2 powi (expo x)" using c by (intro power_int_increasing) simp_all
      finally have "\<bar>x\<bar> = 2 powi (expo x)" using lo by simp
      then have "\<bar>x\<bar> / ulp x = 2 powi (expo x) / 2 powi (expo x - 52)" by (simp add: ulp_def)
      also have "\<dots> = 2 powi (expo x - (expo x - 52))" by (subst power_int_diff) simp_all
      also have "\<dots> = 2 ^ 52" by simp
      finally have "\<bar>x / ulp x\<bar> = of_int (2 ^ 52)" by (simp add: abs_of_pos)
      then have "x / ulp x = of_int (2 ^ 52) \<or> x / ulp x = of_int (- (2 ^ 52))"
        by (simp only: of_int_minus) linarith
      then show ?thesis by blast
    qed
    then obtain N where "x / ulp x = of_int N" ..
    from rnd_of_scaled_int[OF False this] show ?thesis by (simp add: x_def)
  qed
qed

lemma rnd_of_int:
  assumes "\<bar>m\<bar> \<le> 2 ^ 53"
  shows "rnd (of_int m) = of_int m"
  using rnd_exact[OF assms, of 0] by simp

lemma round_even_scaled_bound:
  assumes "x \<noteq> 0"
  shows "\<bar>round_even (x / ulp x)\<bar> \<le> 2 ^ 53"
proof -
  have b: "\<bar>x / ulp x\<bar> < 2 ^ 53" by (rule scaled_less[OF assms])
  from b have b1: "x / ulp x < 2 ^ 53" and b2: "- (x / ulp x) < 2 ^ 53"
    using abs_less_iff by blast+
  have "x / ulp x \<le> of_int (2 ^ 53)" using b1 by simp
  then have 1: "round_even (x / ulp x) \<le> 2 ^ 53" by (rule round_even_le)
  have "of_int (- (2 ^ 53)) \<le> x / ulp x" using b2 by simp
  then have 2: "- (2 ^ 53) \<le> round_even (x / ulp x)" by (rule round_even_ge)
  from 1 2 show ?thesis by simp
qed

lemma rnd_idem [simp]: "rnd (rnd x) = rnd x"
proof (cases "x = 0")
  case True
  then show ?thesis by simp
next
  case False
  have "rnd x = of_int (round_even (x / ulp x)) * 2 powi (expo x - 52)"
    using False by (simp add: rnd_def ulp_def)
  moreover have "rnd (of_int (round_even (x / ulp x)) * 2 powi (expo x - 52)) =
      of_int (round_even (x / ulp x)) * 2 powi (expo x - 52)"
    using round_even_scaled_bound[OF False] expo_ge[of x] by (intro rnd_exact) simp_all
  ultimately show ?thesis by simp
qed

lemma expo_mono:
  assumes "0 < x" "x \<le> y"
  shows "expo x \<le> expo y"
  using ilog2_mono[of "\<bar>x\<bar>" "\<bar>y\<bar>"] assms by (simp add: expo_def)

lemma rnd_le_pow:
  assumes "x \<noteq> 0"
  shows "\<bar>rnd x\<bar> \<le> 2 powi (expo x + 1)"
proof -
  have "\<bar>rnd x\<bar> = of_int \<bar>round_even (x / ulp x)\<bar> * ulp x"
    using assms by (simp add: rnd_def abs_mult abs_of_pos)
  also have "\<dots> \<le> of_int (2 ^ 53) * ulp x"
    using round_even_scaled_bound[OF assms]
    by (intro mult_right_mono) (simp_all only: of_int_le_iff ulp_nonneg)
  also have "\<dots> = 2 powi (expo x + 1)" using ulp_mult[of x] by (simp add: mult.commute)
  finally show ?thesis .
qed

lemma rnd_ge_pow:
  assumes "0 < x" "- 1022 < expo x"
  shows "2 powi (expo x) \<le> rnd x"
proof -
  have e: "expo x = ilog 2 \<bar>x\<bar>" using assms(2) by (simp add: expo_def)
  then have lo: "2 powi (expo x) \<le> x" using ilog2_bounds(1)[of "\<bar>x\<bar>"] assms(1) by simp
  then have "ulp x * 2 ^ 52 \<le> x" using ulp_mult'[of x] by simp
  then have "of_int (2 ^ 52) \<le> x / ulp x" by (simp add: pos_le_divide_eq mult.commute)
  then have "2 ^ 52 \<le> round_even (x / ulp x)" by (rule round_even_ge)
  then have "rat_of_int (2 ^ 52) \<le> of_int (round_even (x / ulp x))" by (simp only: of_int_le_iff)
  then have "of_int (2 ^ 52) * ulp x \<le> of_int (round_even (x / ulp x)) * ulp x"
    by (intro mult_right_mono) simp_all
  moreover have "of_int (2 ^ 52) * ulp x = 2 powi (expo x)"
    using ulp_mult'[of x] by (simp add: mult.commute)
  moreover have "of_int (round_even (x / ulp x)) * ulp x = rnd x"
    using assms(1) by (simp add: rnd_def)
  ultimately show ?thesis by simp
qed

lemma rnd_mono_pos:
  assumes "0 < x" "x \<le> y"
  shows "rnd x \<le> rnd y"
proof (cases "expo x = expo y")
  case True
  then have u: "ulp x = ulp y" by (simp add: ulp_def)
  have "x / ulp y \<le> y / ulp y" using assms(2) by (simp add: divide_right_mono)
  then have "round_even (x / ulp y) \<le> round_even (y / ulp y)" by (rule round_even_mono)
  then have "rat_of_int (round_even (x / ulp y)) \<le> of_int (round_even (y / ulp y))"
    by (simp only: of_int_le_iff)
  then have "of_int (round_even (x / ulp y)) * ulp y \<le> of_int (round_even (y / ulp y)) * ulp y"
    by (intro mult_right_mono) simp_all
  then show ?thesis using assms by (simp add: rnd_def u)
next
  case False
  with expo_mono[OF assms] have lt: "expo x < expo y" by simp
  have y: "0 < y" using assms by simp
  have "rnd x \<le> \<bar>rnd x\<bar>" by simp
  also have "\<dots> \<le> 2 powi (expo x + 1)" using assms(1) by (intro rnd_le_pow) simp
  also have "\<dots> \<le> 2 powi (expo y)" using lt by (intro power_int_increasing) simp_all
  also have "\<dots> \<le> rnd y" using lt expo_ge[of x] by (intro rnd_ge_pow y) simp
  finally show ?thesis .
qed

lemma rnd_mono:
  assumes "x \<le> y"
  shows "rnd x \<le> rnd y"
proof -
  consider "0 < x" | "x \<le> 0" "0 \<le> y" | "y < 0" by linarith
  then show ?thesis
  proof cases
    case 1
    then show ?thesis using assms by (rule rnd_mono_pos)
  next
    case 2
    then show ?thesis using rnd_nonpos[of x] rnd_nonneg[of y] by simp
  next
    case 3
    then have "rnd (- y) \<le> rnd (- x)" using assms by (intro rnd_mono_pos) simp_all
    then show ?thesis by (simp add: rnd_minus)
  qed
qed


lemma rnd_pow2: "- 1074 \<le> E \<Longrightarrow> rnd (2 powi E) = 2 powi E"
  using rnd_exact[of 1 E] by simp

lemma rnd_abs_le:
  assumes "\<bar>x\<bar> \<le> 2 powi E" "- 1074 \<le> E"
  shows "\<bar>rnd x\<bar> \<le> 2 powi E"
proof -
  have "rnd x \<le> rnd (2 powi E)" using assms(1) by (intro rnd_mono) simp
  moreover have "rnd (- (2 powi E)) \<le> rnd x" using assms(1) by (intro rnd_mono) simp
  ultimately show ?thesis using rnd_pow2[OF assms(2)] by (simp add: rnd_minus abs_le_iff)
qed

lemma fin_eq:
  assumes "\<bar>rnd x\<bar> < 2 powi 1024"
  shows "fin x = Fin (rnd x)"
proof -
  have "\<not> (rnd x \<noteq> 0 \<and> 1024 \<le> ilog 2 \<bar>rnd x\<bar>)"
  proof
    assume h: "rnd x \<noteq> 0 \<and> 1024 \<le> ilog 2 \<bar>rnd x\<bar>"
    then have "(2::rat) powi 1024 \<le> 2 powi (ilog 2 \<bar>rnd x\<bar>)"
      by (intro power_int_increasing) simp_all
    also have "\<dots> \<le> \<bar>rnd x\<bar>" using h by (intro ilog2_bounds) simp
    finally show False using assms by simp
  qed
  then show ?thesis unfolding fin_def Let_def by (simp only: if_False)
qed

lemma fin_Fin:
  assumes "\<bar>x\<bar> \<le> 2 powi E" "- 1074 \<le> E" "E < 1024"
  shows "fin x = Fin (rnd x)"
proof -
  have "\<bar>rnd x\<bar> \<le> 2 powi E" using assms(1,2) by (rule rnd_abs_le)
  also have "(2::rat) powi E < 2 powi 1024"
    using assms(3) by (intro power_int_strict_increasing) simp_all
  finally show ?thesis by (rule fin_eq)
qed

lemma fin_of_int:
  assumes "\<bar>m\<bar> \<le> 2 ^ 53"
  shows "fin (of_int m) = Fin (of_int m)"
proof -
  have "\<bar>rat_of_int m\<bar> \<le> of_int (2 ^ 53)"
    using assms by (simp only: of_int_abs[symmetric] of_int_le_iff)
  then have "\<bar>rat_of_int m\<bar> \<le> 2 powi 53" by simp
  then have "fin (of_int m) = Fin (rnd (of_int m))" by (rule fin_Fin) simp_all
  then show ?thesis using rnd_of_int[OF assms] by simp
qed

lemma fin_of_nat:
  assumes "n \<le> 2 ^ 53"
  shows "fin (of_nat n) = Fin (of_nat n)"
proof -
  have "int n \<le> int (2 ^ 53)" using assms by (simp only: of_nat_le_iff)
  then have "\<bar>int n\<bar> \<le> 2 ^ 53" by simp
  from fin_of_int[OF this] show ?thesis by simp
qed

lemma fin_0 [simp]: "fin 0 = Fin 0"
  using fin_of_int[of 0] by simp

lemma fin_1 [simp]: "fin 1 = Fin 1"
  using fin_of_int[of 1] by simp

lemma fin_half [simp]: "fin (1/2) = Fin (1/2)"
proof -
  have "fin (1/2) = Fin (rnd (1/2))" by (rule fin_Fin[where E = 0]) simp_all
  moreover have "rnd (1/2) = 1/2" using rnd_exact[of 1 "- 1"] by simp
  ultimately show ?thesis by simp
qed

lemma fadd_Fin [simp]: "fadd (Fin x) (Fin y) = fin (x + y)"
  by (simp add: fadd_def)

lemma fsub_Fin [simp]: "fsub (Fin x) (Fin y) = fin (x - y)"
  by (simp add: fsub_def fneg_def fadd_def)

lemma fmul_Fin [simp]: "fmul (Fin x) (Fin y) = fin (x * y)"
  by (simp add: fmul_def)

lemma fdiv_Fin [simp]: "y \<noteq> 0 \<Longrightarrow> fdiv (Fin x) (Fin y) = fin (x / y)"
  by (simp add: fdiv_def)

lemma flt_Fin [simp]: "flt (Fin x) (Fin y) = (x < y)"
  by (simp add: flt_def)

lemma feq_Fin [simp]: "feq (Fin x) (Fin y) = (x = y)"
  by (simp add: feq_def)

lemma Math_round_Fin [simp]: "Math_round (Fin x) = Fin (of_int \<lfloor>x + 1/2\<rfloor>)"
  by (simp add: Math_round_def)

lemma round_near:
  fixes x :: rat
  assumes "\<bar>x - of_int n\<bar> < 1/2"
  shows "\<lfloor>x + 1/2\<rfloor> = n"
proof -
  from assms have "x - of_int n < 1/2" "- (x - of_int n) < 1/2"
    using abs_less_iff by blast+
  then have "of_int n \<le> x + 1/2" "x + 1/2 < of_int n + 1" by linarith+
  then show ?thesis by (simp only: floor_eq_iff)
qed

lemma fin_numeral [simp]:
  assumes "numeral k \<le> (2::int) ^ 53"
  shows "fin (numeral k) = Fin (numeral k)"
proof -
  have "\<bar>numeral k :: int\<bar> \<le> 2 ^ 53" using assms by (simp only: abs_numeral)
  from fin_of_int[OF this] show ?thesis by (simp only: of_int_numeral)
qed

lemma fin_neg_numeral [simp]:
  assumes "numeral k \<le> (2::int) ^ 53"
  shows "fin (- numeral k) = Fin (- numeral k)"
proof -
  have "\<bar>- numeral k :: int\<bar> \<le> 2 ^ 53" using assms by (simp only: abs_neg_numeral)
  from fin_of_int[OF this] show ?thesis by (simp only: of_int_numeral of_int_minus)
qed


lemma Math_max2_Fin [simp]: "Math_max2 (Fin x) (Fin y) = Fin (max x y)"
  unfolding Math_max2_def by (cases "x < y") simp_all

lemma Math_min2_Fin [simp]: "Math_min2 (Fin x) (Fin y) = Fin (min x y)"
  unfolding Math_min2_def by (cases "y < x") simp_all

lemma Math_max_Fin [simp]: "Math_max (Fin x) (Fin y) (Fin z) = Fin (max (max x y) z)"
  by (simp add: Math_max_def)

lemma Math_min_Fin [simp]: "Math_min (Fin x) (Fin y) (Fin z) = Fin (min (min x y) z)"
  by (simp add: Math_min_def)

lemma floor_rat_numeral [simp]: "\<lfloor>numeral v / numeral w :: rat\<rfloor> = numeral v div numeral w"
  by (metis floor_divide_of_int_eq of_int_numeral)

lemma floor_rat_neg_numeral [simp]:
  "\<lfloor>- (numeral v / numeral w) :: rat\<rfloor> = - numeral v div numeral w"
  by (metis divide_minus_left floor_divide_of_int_eq of_int_neg_numeral of_int_numeral)

lemma rnd_eval:
  assumes "2 powi e \<le> \<bar>x\<bar>" "\<bar>x\<bar> < 2 powi (e + 1)" "- 1022 \<le> e"
  shows "rnd x = of_int (round_even (x / 2 powi (e - 52))) * 2 powi (e - 52)"
proof -
  have pos: "0 < \<bar>x\<bar>" using assms(1) by (rule less_le_trans[rotated]) simp
  then have "ilog 2 \<bar>x\<bar> = e" using assms by (intro ilog2_unique)
  then have "expo x = e" using assms(3) by (simp add: expo_def)
  then show ?thesis using pos by (simp add: rnd_def ulp_def)
qed

lemma fin_eval:
  assumes "2 powi e \<le> \<bar>x\<bar>" "\<bar>x\<bar> < 2 powi (e + 1)" "- 1022 \<le> e" "e < 1023"
  shows "fin x = Fin (of_int (round_even (x / 2 powi (e - 52))) * 2 powi (e - 52))"
proof -
  have "\<bar>x\<bar> \<le> 2 powi (e + 1)" using assms(2) by simp
  then have "fin x = Fin (rnd x)" using assms(3,4) by (intro fin_Fin[where E = "e + 1"]) simp_all
  then show ?thesis using rnd_eval[OF assms(1-3)] by simp
qed

lemma rnd_rep_form:
  assumes "x \<noteq> 0"
  shows "rnd x = of_int (round_even (x / ulp x)) * 2 powi (expo x - 52)"
    "\<bar>round_even (x / ulp x)\<bar> \<le> 2 ^ 53" "- 1074 \<le> expo x - 52"
  using assms round_even_scaled_bound[OF assms] expo_ge[of x] by (simp_all add: rnd_def ulp_def)

lemma rnd_rep_double:
  assumes "rnd x = x"
  shows "rnd (2 * x) = 2 * x"
proof (cases "x = 0")
  case True
  then show ?thesis by simp
next
  case False
  define N where "N = round_even (x / ulp x)"
  have x: "x = of_int N * 2 powi (expo x - 52)"
    using rnd_rep_form(1)[OF False] assms by (simp add: N_def)
  have "2 * x = of_int N * (2 powi (expo x - 52) * 2 powi 1)" by (subst x) simp
  also have "2 powi (expo x - 52) * 2 powi 1 = (2::rat) powi (expo x - 52 + 1)"
    by (subst power_int_add) simp_all
  finally have d: "2 * x = of_int N * 2 powi (expo x - 52 + 1)" .
  have "rnd (of_int N * 2 powi (expo x - 52 + 1)) = of_int N * 2 powi (expo x - 52 + 1)"
    using rnd_rep_form(2,3)[OF False] by (intro rnd_exact) (simp_all add: N_def)
  then show ?thesis by (simp only: d)
qed

lemma fin_rnd:
  assumes "\<bar>x\<bar> \<le> 2 powi E" "- 1074 \<le> E" "E < 1024"
  shows "fin (rnd x) = Fin (rnd x)"
proof -
  have "\<bar>rnd x\<bar> \<le> 2 powi E" using assms(1,2) by (rule rnd_abs_le)
  then have "fin (rnd x) = Fin (rnd (rnd x))" using assms(2,3) by (rule fin_Fin)
  then show ?thesis by simp
qed

lemma rnd_numeral [simp]: "numeral k \<le> (2::int) ^ 53 \<Longrightarrow> rnd (numeral k) = numeral k"
proof -
  assume "numeral k \<le> (2::int) ^ 53"
  then have "\<bar>numeral k :: int\<bar> \<le> 2 ^ 53" by (simp only: abs_numeral)
  from rnd_of_int[OF this] show ?thesis by (simp only: of_int_numeral)
qed

lemma rnd_1 [simp]: "rnd 1 = 1"
  using rnd_of_int[of 1] by simp

lemma fin_m1 [simp]: "fin (- 1) = Fin (- 1)"
  using fin_of_int[of "- 1"] by simp

lemma rnd_le:
  assumes "x \<le> y" "rnd y = y"
  shows "rnd x \<le> y"
  using rnd_mono[OF assms(1)] assms(2) by simp

lemma rnd_ge:
  assumes "y \<le> x" "rnd y = y"
  shows "y \<le> rnd x"
  using rnd_mono[OF assms(1)] assms(2) by simp

lemma abs_leD:
  fixes x y :: rat
  assumes "\<bar>x - y\<bar> \<le> e"
  shows "x \<le> y + e" "y - e \<le> x"
  using assms by linarith+

lemma abs_leI:
  fixes x y :: rat
  assumes "x \<le> y + e" "y - e \<le> x"
  shows "\<bar>x - y\<bar> \<le> e"
  using assms by linarith

lemma convex_bound:
  fixes p q th lo hi :: rat
  assumes "lo \<le> p" "p \<le> hi" "lo \<le> q" "q \<le> hi" "0 \<le> th" "th \<le> 1"
  shows "lo \<le> p + (q - p) * th" "p + (q - p) * th \<le> hi"
proof -
  have eq: "p + (q - p) * th = (1 - th) * p + th * q" by (simp add: algebra_simps)
  have 1: "(1 - th) * lo \<le> (1 - th) * p" using assms by (intro mult_left_mono) simp_all
  have 2: "th * lo \<le> th * q" using assms by (intro mult_left_mono) simp_all
  have 3: "(1 - th) * lo + th * lo = lo" by (simp add: algebra_simps)
  show "lo \<le> p + (q - p) * th" unfolding eq using 1 2 3 by linarith
  have 4: "(1 - th) * p \<le> (1 - th) * hi" using assms by (intro mult_left_mono) simp_all
  have 5: "th * q \<le> th * hi" using assms by (intro mult_left_mono) simp_all
  have 6: "(1 - th) * hi + th * hi = hi" by (simp add: algebra_simps)
  show "p + (q - p) * th \<le> hi" unfolding eq using 4 5 6 by linarith
qed

lemma abs_mult_bound:
  fixes x t :: rat
  assumes "\<bar>x\<bar> \<le> e" "0 \<le> t" "t \<le> c"
  shows "\<bar>x * t\<bar> \<le> e * c"
proof -
  have e0: "0 \<le> e" using assms(1) abs_ge_zero[of x] by linarith
  have "\<bar>x * t\<bar> = \<bar>x\<bar> * t" using assms(2) by (simp add: abs_mult)
  also have "\<dots> \<le> e * c" using assms e0 by (intro mult_mono) simp_all
  finally show ?thesis .
qed

lemma fin_op:
  assumes "\<bar>x\<bar> \<le> 2 powi E" "- 1022 \<le> E" "E < 1024"
  shows "fin x = Fin (rnd x)" "\<bar>rnd x\<bar> \<le> 2 powi E" "\<bar>rnd x - x\<bar> \<le> 2 powi (E - 53)"
proof -
  show "fin x = Fin (rnd x)" using assms by (intro fin_Fin) simp_all
  show "\<bar>rnd x\<bar> \<le> 2 powi E" using assms by (intro rnd_abs_le) simp_all
  show "\<bar>rnd x - x\<bar> \<le> 2 powi (E - 53)" using assms by (intro rnd_abs_err) simp_all
qed

lemma rnd_unit:
  assumes "0 \<le> x" "x \<le> 1"
  shows "fin x = Fin (rnd x)" "0 \<le> rnd x" "rnd x \<le> 1"
proof -
  have "\<bar>x\<bar> \<le> 2 powi 0" using assms by simp
  then show "fin x = Fin (rnd x)" by (rule fin_Fin) simp_all
  show "0 \<le> rnd x" using assms(1) by (rule rnd_nonneg)
  show "rnd x \<le> 1" using assms(2) by (rule rnd_le) simp
qed

section \<open>Hexadecimal strings\<close>

lemma below_16: "x < 16 \<Longrightarrow> x \<in> {0, 1, 2, 3, 4, 5, 6, 7, 8, 9, 10, 11, 12, 13, 14, 15::nat}"
  by (simp only: insert_iff empty_iff) arith

lemma digit_char_code:
  assumes "x < 16"
  shows "digit_char x = (if x < 10 then 48 + x else 87 + x)"
  using below_16[OF assms] by (elim insertE emptyE) (simp_all add: digit_char_def str_def)

lemma digit_of_digit_char: "x < 16 \<Longrightarrow> digit_of 16 (digit_char x) = Some x"
  by (simp add: digit_of_def digit_char_code Let_def)

lemma is_digit_digit_char: "x < 16 \<Longrightarrow> is_digit 16 (digit_char x)"
  by (simp add: is_digit_def digit_of_digit_char)

lemma not_ws_digit_char: "x < 16 \<Longrightarrow> \<not> is_ws (digit_char x)"
  by (simp add: is_ws_def digit_char_code Let_def)

lemma digit_char_neq:
  assumes "x < 16" "c < 48 \<or> (57 < c \<and> c < 97) \<or> 102 < c"
  shows "digit_char x \<noteq> c"
  using assms by (auto simp: digit_char_code split: if_splits)

lemma parseInt16_two:
  assumes "x < 16" "y < 16"
  shows "parseInt16 [digit_char x, digit_char y] = Fin (of_nat (16 * x + y))"
proof -
  have n: "digit_char x \<noteq> of_char CHR ''-''" "digit_char x \<noteq> of_char CHR ''+''"
    "digit_char y \<noteq> of_char CHR ''x''" "digit_char y \<noteq> of_char CHR ''X''"
    by (rule digit_char_neq[OF assms(1)], simp, rule digit_char_neq[OF assms(1)], simp,
        rule digit_char_neq[OF assms(2)], simp, rule digit_char_neq[OF assms(2)], simp)
  have "16 * x + y \<le> 2 ^ 53" using assms by simp
  then have f: "fin (of_nat (16 * x + y)) = Fin (of_nat (16 * x + y))" by (rule fin_of_nat)
  show ?thesis
    using assms n f
    by (simp add: parseInt16_def trimStart_def not_ws_digit_char is_digit_digit_char
        digits_val_def digit_of_digit_char Let_def mult.commute str_def)
qed

lemma nat_to_string_byte:
  assumes "n \<le> 255"
  shows "padStart 2 (of_char CHR ''0'') (nat_to_string 16 n)
           = [digit_char (n div 16), digit_char (n mod 16)]"
proof (cases "n < 16")
  case True
  then show ?thesis by (simp add: padStart_def digit_char_def str_def nat_to_string.simps)
next
  case False
  then have "n div 16 < 16" using assms by simp
  then show ?thesis using False
    by (simp add: padStart_def nat_to_string.simps[of 16 n] nat_to_string.simps[of 16 "n div 16"])
qed

lemma decToHex_byte:
  assumes "n \<le> 255"
  shows "decToHex (Fin (of_nat n)) = [digit_char (n div 16), digit_char (n mod 16)]"
  using nat_to_string_byte[OF assms] by (simp add: decToHex_def toString16_def)


section \<open>Evaluation on literal inputs\<close>

lemmas str_defs = str_def trim_def trimStart_def is_ws_def indexOf_def slice_def elem_at_def
  is_digit_def digit_of_def digits_val_def Let_def

lemmas num_defs = Number_def unsigned_decimal_def signed_int_def radix_literal_def

lemma fin_49_255: "fin (49/255) = Fin (6923180603644057 / 36028797018963968)"
  by (subst fin_eval[where e = "- 3"]) (simp_all add: round_even_def Let_def)

lemma fin_192_1000: "fin (192/1000) = Fin (3458764513820541 / 18014398509481984)"
  by (subst fin_eval[where e = "- 3"]) (simp_all add: round_even_def Let_def)

lemma fin_8_10: "fin (8/10) = Fin (3602879701896397 / 4503599627370496)"
  by (subst fin_eval[where e = "- 1"]) (simp_all add: round_even_def Let_def)

lemma fin_third: "fin (1/3) = Fin (6004799503160661 / 18014398509481984)"
  by (subst fin_eval[where e = "- 2"]) (simp_all add: round_even_def Let_def)

lemma fin_sixth: "fin (1/6) = Fin (6004799503160661 / 36028797018963968)"
  by (subst fin_eval[where e = "- 3"]) (simp_all add: round_even_def Let_def)

lemma fin_two_thirds: "fin (2/3) = Fin (6004799503160661 / 9007199254740992)"
  by (subst fin_eval[where e = "- 1"]) (simp_all add: round_even_def Let_def)

lemma fin_3_2: "fin (3/2) = Fin (3/2)"
  by (subst fin_eval[where e = 0]) (simp_all add: round_even_def Let_def)

section \<open>Gray levels\<close>

lemma gray_unit:
  fixes n :: nat
  assumes "n \<le> 255"
  defines "x \<equiv> rnd (of_nat n / 255)"
  shows "fin (of_nat n / 255) = Fin x" "0 \<le> x" "x \<le> 1"
    "\<bar>x - of_nat n / 255\<bar> \<le> 2 powi (- 53)" "rnd x = x"
proof -
  have b: "\<bar>rat_of_nat n / 255\<bar> \<le> 2 powi 0" using assms(1) by simp
  show "fin (of_nat n / 255) = Fin x" unfolding x_def using b by (rule fin_Fin) simp_all
  show "0 \<le> x" unfolding x_def by (intro rnd_nonneg) simp
  have "\<bar>x\<bar> \<le> 2 powi 0" unfolding x_def using b by (rule rnd_abs_le) simp
  then show "x \<le> 1" by simp
  show "\<bar>x - of_nat n / 255\<bar> \<le> 2 powi (- 53)"
    unfolding x_def using rnd_abs_err[OF b] by simp
  show "rnd x = x" by (simp add: x_def)
qed

lemma abs_tri:
  fixes u v w :: rat
  assumes "\<bar>u - v\<bar> \<le> d" "\<bar>v - w\<bar> \<le> e"
  shows "\<bar>u - w\<bar> \<le> d + e"
proof -
  have "\<bar>u - w\<bar> = \<bar>(u - v) + (v - w)\<bar>" by simp
  also have "\<dots> \<le> \<bar>u - v\<bar> + \<bar>v - w\<bar>" by (rule abs_triangle_ineq)
  finally show ?thesis using assms by simp
qed

lemma round_back:
  fixes n :: nat
  assumes "n \<le> 255"
  shows "Math_round (fmul (fin (of_nat n / 255)) (Fin 255)) = Fin (of_nat n)"
proof -
  define x where "x = rnd (rat_of_nat n / 255)"
  note g = gray_unit[OF assms, folded x_def]
  have b: "\<bar>x * 255\<bar> \<le> 2 powi 8" using g(2,3) by (simp add: abs_mult)
  have f: "fin (x * 255) = Fin (rnd (x * 255))" using b by (rule fin_Fin) simp_all
  have e1: "\<bar>rnd (x * 255) - x * 255\<bar> \<le> 2 powi (- 45)" using rnd_abs_err[OF b] by simp
  have e2: "\<bar>x * 255 - of_nat n\<bar> \<le> 255 * 2 powi (- 53)"
  proof -
    have "x * 255 - of_nat n = (x - of_nat n / 255) * 255" by simp
    then have "\<bar>x * 255 - of_nat n\<bar> = \<bar>x - of_nat n / 255\<bar> * 255"
      by (simp only: abs_mult abs_numeral)
    also have "\<dots> \<le> 2 powi (- 53) * 255" using g(4) by (intro mult_right_mono) simp_all
    finally show ?thesis by simp
  qed
  have "\<bar>rnd (x * 255) - of_nat n\<bar> \<le> 2 powi (- 45) + 255 * 2 powi (- 53)"
    using e1 e2 by (rule abs_tri)
  also have "\<dots> < 1/2" by simp
  finally have "\<bar>rnd (x * 255) - of_int (int n)\<bar> < 1/2" by simp
  then have "\<lfloor>rnd (x * 255) + 1/2\<rfloor> = int n" by (rule round_near)
  then show ?thesis using g(1) f by simp
qed


section \<open>The weighted sum of \<open>etGrayScale\<close>\<close>

lemma fin_299: "fin (299/1000) = Fin (5386305154335113 / 18014398509481984)"
  by (subst fin_eval[where e = "- 2"]) (simp_all add: round_even_def Let_def)

lemma fin_587: "fin (587/1000) = Fin (2643612981266481 / 4503599627370496)"
  by (subst fin_eval[where e = "- 1"]) (simp_all add: round_even_def Let_def)

lemma fin_114: "fin (114/1000) = Fin (8214565720323785 / 72057594037927936)"
  by (subst fin_eval[where e = "- 4"]) (simp_all add: round_even_def Let_def)

lemma gray_first:
  "etGrayScale (new_UColor (Fin (2 ^ 53)) (Fin (2 ^ 53)) (Fin (2 ^ 53)) (Fin 1))
     = new_UColor (Fin 9007199254740991) (Fin 9007199254740991) (Fin 9007199254740991) (Fin 1)"
proof -
  have 1: "fin (2 ^ 53 * (5386305154335113 / 18014398509481984)) = Fin (5386305154335113 / 2)"
    by (subst fin_eval[where e = 51]) (simp_all add: round_even_def Let_def)
  have 2: "fin (2 ^ 53 * (2643612981266481 / 4503599627370496)) = Fin 5287225962532962"
    by (subst fin_eval[where e = 52]) (simp_all add: round_even_def Let_def)
  have 3: "fin (2 ^ 53 * (8214565720323785 / 72057594037927936)) = Fin (8214565720323785 / 8)"
    by (subst fin_eval[where e = 49]) (simp_all add: round_even_def Let_def)
  have 4: "fin (5386305154335113 / 2 + 5287225962532962) = Fin 7980378539700518"
    by (subst fin_eval[where e = 52]) (simp_all add: round_even_def Let_def)
  have 5: "fin (7980378539700518 + 8214565720323785 / 8) = Fin 9007199254740991"
    by (subst fin_eval[where e = 52]) (simp_all add: round_even_def Let_def)
  show ?thesis
    using fin_299 fin_587 fin_114 1 2 3 4 5
    by (simp add: etGrayScale_def new_UColor_def Let_def)
qed

lemma gray_second:
  "etGrayScale (new_UColor (Fin 9007199254740991) (Fin 9007199254740991) (Fin 9007199254740991) (Fin 1))
     = new_UColor (Fin 9007199254740990) (Fin 9007199254740990) (Fin 9007199254740990) (Fin 1)"
proof -
  have 1: "fin (9007199254740991 * (5386305154335113 / 18014398509481984)) = Fin 2693152577167556"
    by (subst fin_eval[where e = 51]) (simp_all add: round_even_def Let_def)
  have 2: "fin (9007199254740991 * (2643612981266481 / 4503599627370496)) = Fin 5287225962532961"
    by (subst fin_eval[where e = 52]) (simp_all add: round_even_def Let_def)
  have 3: "fin (9007199254740991 * (8214565720323785 / 72057594037927936)) = Fin 1026820715040473"
    by (subst fin_eval[where e = 49]) (simp_all add: round_even_def Let_def)
  have 4: "fin (2693152577167556 + 5287225962532961) = Fin 7980378539700517"
    by (subst fin_eval[where e = 52]) (simp_all add: round_even_def Let_def)
  have 5: "fin (7980378539700517 + 1026820715040473) = Fin 9007199254740990"
    by (subst fin_eval[where e = 52]) (simp_all add: round_even_def Let_def)
  show ?thesis
    using fin_299 fin_587 fin_114 1 2 3 4 5
    by (simp add: etGrayScale_def new_UColor_def Let_def)
qed


lemma powi_step: "(2::rat) powi (E + 1) = 2 * 2 powi E"
  by (subst power_int_add) simp_all

lemma powi_step2: "(2::rat) powi (E + 1 + 1) = 4 * 2 powi E"
proof -
  have "(2::rat) powi (E + 1 + 1) = 2 * (2 * 2 powi E)" by (simp only: powi_step)
  then show ?thesis by simp
qed

lemma abs_mult_le:
  fixes x k :: rat
  assumes "\<bar>x\<bar> \<le> B" "0 \<le> k" "k \<le> 1"
  shows "\<bar>x * k\<bar> \<le> B"
proof -
  have "\<bar>x * k\<bar> = \<bar>x\<bar> * k" using assms(2) by (simp add: abs_mult)
  also have "\<dots> \<le> \<bar>x\<bar> * 1" using assms(3) by (intro mult_left_mono) simp_all
  finally show ?thesis using assms(1) by simp
qed

lemma luma_bounds:
  assumes "\<bar>x\<bar> \<le> 2 powi E" "\<bar>y\<bar> \<le> 2 powi E" "\<bar>z\<bar> \<le> 2 powi E" "0 \<le> E" "E \<le> 60"
  shows "etGrayScale (new_UColor (Fin x) (Fin y) (Fin z) al) =
           new_UColor (Fin (of_int \<lfloor>luma x y z + 1/2\<rfloor>)) (Fin (of_int \<lfloor>luma x y z + 1/2\<rfloor>))
             (Fin (of_int \<lfloor>luma x y z + 1/2\<rfloor>)) al"
    and "\<bar>luma x y z\<bar> \<le> 4 * 2 powi E"
    and "\<bar>luma x y z - (x * (5386305154335113 / 18014398509481984) +
            y * (2643612981266481 / 4503599627370496) +
            z * (8214565720323785 / 72057594037927936))\<bar> \<le> 9 * 2 powi (E - 53)"
proof -
  define K1 :: rat where "K1 = 5386305154335113 / 18014398509481984"
  define K2 :: rat where "K2 = 2643612981266481 / 4503599627370496"
  define K3 :: rat where "K3 = 8214565720323785 / 72057594037927936"
  define t1 where "t1 = rnd (x * K1)"
  define t2 where "t2 = rnd (y * K2)"
  define t3 where "t3 = rnd (z * K3)"
  define s1 where "s1 = rnd (t1 + t2)"
  define s2 where "s2 = rnd (s1 + t3)"
  have l: "luma x y z = s2"
    by (simp add: luma_def s2_def s1_def t1_def t2_def t3_def K1_def K2_def K3_def)
  have E1: "- 1074 \<le> E" "E < 1024" "- 1022 \<le> E" using assms(4,5) by simp_all
  have E2: "- 1074 \<le> E + 1" "E + 1 < 1024" "- 1022 \<le> E + 1" using assms(4,5) by simp_all
  have E3: "- 1074 \<le> E + 1 + 1" "E + 1 + 1 < 1024" "- 1022 \<le> E + 1 + 1" using assms(4,5) by simp_all
  have b1: "\<bar>x * K1\<bar> \<le> 2 powi E" using assms(1) by (rule abs_mult_le) (simp_all add: K1_def)
  have b2: "\<bar>y * K2\<bar> \<le> 2 powi E" using assms(2) by (rule abs_mult_le) (simp_all add: K2_def)
  have b3: "\<bar>z * K3\<bar> \<le> 2 powi E" using assms(3) by (rule abs_mult_le) (simp_all add: K3_def)
  have f1: "fin (x * K1) = Fin t1" unfolding t1_def using b1 E1(1,2) by (rule fin_Fin)
  have f2: "fin (y * K2) = Fin t2" unfolding t2_def using b2 E1(1,2) by (rule fin_Fin)
  have f3: "fin (z * K3) = Fin t3" unfolding t3_def using b3 E1(1,2) by (rule fin_Fin)
  have a1: "\<bar>t1\<bar> \<le> 2 powi E" unfolding t1_def using b1 E1(1) by (rule rnd_abs_le)
  have a2: "\<bar>t2\<bar> \<le> 2 powi E" unfolding t2_def using b2 E1(1) by (rule rnd_abs_le)
  have a3: "\<bar>t3\<bar> \<le> 2 powi E" unfolding t3_def using b3 E1(1) by (rule rnd_abs_le)
  have e1: "\<bar>t1 - x * K1\<bar> \<le> 2 powi (E - 53)" unfolding t1_def using b1 E1(3) by (rule rnd_abs_err)
  have e2: "\<bar>t2 - y * K2\<bar> \<le> 2 powi (E - 53)" unfolding t2_def using b2 E1(3) by (rule rnd_abs_err)
  have e3: "\<bar>t3 - z * K3\<bar> \<le> 2 powi (E - 53)" unfolding t3_def using b3 E1(3) by (rule rnd_abs_err)
  have b4: "\<bar>t1 + t2\<bar> \<le> 2 powi (E + 1)"
    using a1 a2 abs_triangle_ineq[of t1 t2] by (simp add: powi_step)
  have f4: "fin (t1 + t2) = Fin s1" unfolding s1_def using b4 E2(1,2) by (rule fin_Fin)
  have a4: "\<bar>s1\<bar> \<le> 2 powi (E + 1)" unfolding s1_def using b4 E2(1) by (rule rnd_abs_le)
  have e4: "\<bar>s1 - (t1 + t2)\<bar> \<le> 2 powi (E + 1 - 53)"
    unfolding s1_def using b4 E2(3) by (rule rnd_abs_err)
  note p2 = powi_step2[of E]
  have "\<bar>s1 + t3\<bar> \<le> 4 * 2 powi E"
    using a4[unfolded powi_step] a3 abs_triangle_ineq[of s1 t3] by linarith
  then have b5: "\<bar>s1 + t3\<bar> \<le> 2 powi (E + 1 + 1)" by (simp only: p2)
  have f5: "fin (s1 + t3) = Fin s2" unfolding s2_def using b5 E3(1,2) by (rule fin_Fin)
  have a5: "\<bar>s2\<bar> \<le> 2 powi (E + 1 + 1)" unfolding s2_def using b5 E3(1) by (rule rnd_abs_le)
  have e5: "\<bar>s2 - (s1 + t3)\<bar> \<le> 2 powi (E + 1 + 1 - 53)"
    unfolding s2_def using b5 E3(3) by (rule rnd_abs_err)
  have c1: "fin (299/1000) = Fin K1" using fin_299 by (simp add: K1_def)
  have c2: "fin (587/1000) = Fin K2" using fin_587 by (simp add: K2_def)
  have c3: "fin (114/1000) = Fin K3" using fin_114 by (simp add: K3_def)
  show "etGrayScale (new_UColor (Fin x) (Fin y) (Fin z) al) =
           new_UColor (Fin (of_int \<lfloor>luma x y z + 1/2\<rfloor>)) (Fin (of_int \<lfloor>luma x y z + 1/2\<rfloor>))
             (Fin (of_int \<lfloor>luma x y z + 1/2\<rfloor>)) al"
    unfolding l using c1 c2 c3 by (simp add: etGrayScale_def new_UColor_def f1 f2 f3 f4 f5 Let_def)
  show "\<bar>luma x y z\<bar> \<le> 4 * 2 powi E" using a5 by (simp only: l p2)
  have "E + 1 - 53 = E - 53 + 1" by simp
  then have q1: "(2::rat) powi (E + 1 - 53) = 2 * 2 powi (E - 53)"
    by (simp only: powi_step)
  have "E + 1 + 1 - 53 = E - 53 + 1 + 1" by simp
  then have q2: "(2::rat) powi (E + 1 + 1 - 53) = 4 * 2 powi (E - 53)"
    by (simp only: powi_step2)
  have "\<bar>s2 - (x * K1 + y * K2 + z * K3)\<bar> \<le> 9 * 2 powi (E - 53)"
    using e1 e2 e3 e4[unfolded q1] e5[unfolded q2] by linarith
  then show "\<bar>luma x y z - (x * (5386305154335113 / 18014398509481984) +
            y * (2643612981266481 / 4503599627370496) +
            z * (8214565720323785 / 72057594037927936))\<bar> \<le> 9 * 2 powi (E - 53)"
    by (simp only: l K1_def K2_def K3_def)
qed



section \<open>The range of \<open>hslToRgb\<close>\<close>

lemma hslToRgb_green:
  assumes "\<not> feq s (Fin 0)"
  shows "fst (snd (hslToRgb h s l)) =
    (let q = (if flt l (Fin (1/2)) then fmul l (fadd (Fin 1) s) else fsub (fadd l s) (fmul l s));
         p = fsub (fmul (Fin 2) l) q
     in Math_round (fmul (hueToRgb p q (fdiv h (Fin 360))) (Fin 255)))"
  using assms by (simp add: hslToRgb_def Let_def)

lemma channel_in_range:
  assumes "- (1/1000) \<le> v" "v \<le> 1 + 1/1000"
  shows "\<exists>i. Math_round (fmul (Fin v) (Fin 255)) = Fin (of_int i) \<and> 0 \<le> i \<and> i \<le> 255"
proof -
  have b: "\<bar>v * 255\<bar> \<le> 2 powi 9" using assms by (simp add: abs_le_iff)
  have f: "fin (v * 255) = Fin (rnd (v * 255))" using b by (rule fin_Fin) simp_all
  have e: "\<bar>rnd (v * 255) - v * 255\<bar> \<le> 2 powi (9 - 53)" using b by (rule rnd_abs_err) simp
  note e' = abs_leD[OF e]
  have lo: "of_int 0 \<le> rnd (v * 255) + 1/2" using e'(2) assms(1) by simp
  have hi: "rnd (v * 255) + 1/2 < of_int 256" using e'(1) assms(2) by simp
  have "0 \<le> \<lfloor>rnd (v * 255) + 1/2\<rfloor>" using lo by (simp only: le_floor_iff)
  moreover have "\<lfloor>rnd (v * 255) + 1/2\<rfloor> < 256" using hi by (simp only: floor_less_iff)
  ultimately show ?thesis using f by simp
qed

section \<open>The hue wheel\<close>

subsection \<open>The ideal hue helper\<close>

lemma cdist_le: "cdist x \<le> \<bar>x - of_int n\<bar>"
  unfolding cdist_def by (rule round_diff_minimal)

lemma cdist_half: "cdist x \<le> 1/2"
  unfolding cdist_def using of_int_round_abs_le[of x] by (simp add: abs_minus_commute)

lemma cdist_nonneg: "0 \<le> cdist x"
  by (simp add: cdist_def)

lemma cdist_lip_aux: "cdist x \<le> \<bar>x - y\<bar> + cdist y"
proof -
  have "cdist x \<le> \<bar>x - of_int (round y)\<bar>" by (rule cdist_le)
  also have "\<dots> = \<bar>(x - y) + (y - of_int (round y))\<bar>" by simp
  also have "\<dots> \<le> \<bar>x - y\<bar> + \<bar>y - of_int (round y)\<bar>" by (rule abs_triangle_ineq)
  finally show ?thesis by (simp add: cdist_def)
qed

lemma cdist_lip: "\<bar>cdist x - cdist y\<bar> \<le> \<bar>x - y\<bar>"
proof -
  have 1: "cdist x \<le> \<bar>x - y\<bar> + cdist y" by (rule cdist_lip_aux)
  have "cdist y \<le> \<bar>y - x\<bar> + cdist x" by (rule cdist_lip_aux)
  then have 2: "cdist y \<le> \<bar>x - y\<bar> + cdist x" by (simp add: abs_minus_commute)
  define D where "D = \<bar>x - y\<bar>"
  show ?thesis using 1 2 unfolding D_def[symmetric] by (intro abs_leI) linarith+
qed

lemma cdist_shift: "cdist (x + of_int k) = cdist x"
proof (rule antisym)
  have "cdist (x + of_int k) \<le> \<bar>x + of_int k - of_int (round x + k)\<bar>" by (rule cdist_le)
  then show "cdist (x + of_int k) \<le> cdist x" by (simp add: cdist_def)
  have "cdist x \<le> \<bar>x - of_int (round (x + of_int k) - k)\<bar>" by (rule cdist_le)
  then show "cdist x \<le> cdist (x + of_int k)" by (simp add: cdist_def algebra_simps)
qed

lemma cdist_eq:
  assumes "\<bar>x - of_int n\<bar> \<le> 1/2"
  shows "cdist x = \<bar>x - of_int n\<bar>"
proof (rule antisym)
  show "cdist x \<le> \<bar>x - of_int n\<bar>" by (rule cdist_le)
  show "\<bar>x - of_int n\<bar> \<le> cdist x"
  proof (cases "round x = n")
    case True
    then show ?thesis by (simp add: cdist_def)
  next
    case False
    then have "1 \<le> \<bar>round x - n\<bar>" by simp
    then have "(1::rat) \<le> of_int \<bar>round x - n\<bar>" by (simp only: of_int_1_le_iff)
    also have "\<dots> = \<bar>(x - of_int n) - (x - of_int (round x))\<bar>" by simp
    also have "\<dots> \<le> \<bar>x - of_int n\<bar> + \<bar>x - of_int (round x)\<bar>" by (rule abs_triangle_ineq4)
    finally have "1 \<le> \<bar>x - of_int n\<bar> + cdist x" by (simp add: cdist_def)
    then show ?thesis using assms by linarith
  qed
qed

lemma clamp_lip:
  fixes u v :: rat
  shows "\<bar>max 0 (min 1 u) - max 0 (min 1 v)\<bar> \<le> \<bar>u - v\<bar>"
  by (simp add: max_def min_def)

lemma trap_lip: "\<bar>trap x - trap y\<bar> \<le> 6 * \<bar>x - y\<bar>"
proof -
  have "\<bar>trap x - trap y\<bar> \<le> \<bar>(2 - 6 * cdist (x - 1/3)) - (2 - 6 * cdist (y - 1/3))\<bar>"
    unfolding trap_def by (rule clamp_lip)
  also have "\<dots> = 6 * \<bar>cdist (x - 1/3) - cdist (y - 1/3)\<bar>"
  proof -
    have e: "(2 - 6 * cdist (x - 1/3)) - (2 - 6 * cdist (y - 1/3))
        = (- 6) * (cdist (x - 1/3) - cdist (y - 1/3))" by simp
    show ?thesis unfolding e abs_mult by simp
  qed
  also have "\<dots> \<le> 6 * \<bar>(x - 1/3) - (y - 1/3)\<bar>"
    by (intro mult_left_mono cdist_lip) simp
  finally show ?thesis by simp
qed

lemma trap_shift: "trap (x + of_int k) = trap x"
proof -
  have "x + of_int k - 1/3 = (x - 1/3) + of_int k" by simp
  then show ?thesis unfolding trap_def by (simp only: cdist_shift)
qed

lemma trap_range: "0 \<le> trap x" "trap x \<le> 1"
  by (simp_all add: trap_def)

lemma trap_rise: "0 \<le> t \<Longrightarrow> t \<le> 1/6 \<Longrightarrow> trap t = 6 * t"
proof -
  assume t: "0 \<le> t" "t \<le> 1/6"
  have "\<bar>(t - 1/3) - of_int 0\<bar> \<le> 1/2" using t by simp
  from cdist_eq[OF this] have "cdist (t - 1/3) = 1/3 - t" using t by simp
  then show ?thesis using t by (simp add: trap_def)
qed

lemma trap_top: "1/6 \<le> t \<Longrightarrow> t \<le> 1/2 \<Longrightarrow> trap t = 1"
proof -
  assume t: "1/6 \<le> t" "t \<le> 1/2"
  have "\<bar>t - 1/3\<bar> \<le> 1/2" using t by linarith
  then have "\<bar>(t - 1/3) - of_int 0\<bar> \<le> 1/2" by simp
  from cdist_eq[OF this] have "cdist (t - 1/3) = \<bar>t - 1/3\<bar>" by simp
  then have "cdist (t - 1/3) \<le> 1/6" using t by linarith
  then show ?thesis by (simp add: trap_def)
qed

lemma trap_fall: "1/2 \<le> t \<Longrightarrow> t \<le> 2/3 \<Longrightarrow> trap t = 4 - 6 * t"
proof -
  assume t: "1/2 \<le> t" "t \<le> 2/3"
  have "\<bar>(t - 1/3) - of_int 0\<bar> \<le> 1/2" using t by simp
  from cdist_eq[OF this] have "cdist (t - 1/3) = t - 1/3" using t by simp
  then show ?thesis using t by (simp add: trap_def)
qed

lemma trap_bottom: "2/3 \<le> t \<Longrightarrow> t \<le> 1 \<Longrightarrow> trap t = 0"
proof -
  assume t: "2/3 \<le> t" "t \<le> 1"
  have "1/3 \<le> cdist (t - 1/3)"
  proof (cases "t \<le> 5/6")
    case True
    have "\<bar>(t - 1/3) - of_int 0\<bar> \<le> 1/2" using t True by simp
    from cdist_eq[OF this] show ?thesis using t by simp
  next
    case False
    have "\<bar>(t - 1/3) - of_int 1\<bar> \<le> 1/2" using t False by simp
    from cdist_eq[OF this] show ?thesis using t by simp
  qed
  then show ?thesis by (simp add: trap_def)
qed

lemma complement_identity:
  fixes M m Y Z f :: rat
  assumes "m < M" "f * (M - m) = Y - Z" "m = min Y Z" "Y \<le> M" "Z \<le> M"
  shows "m + (M - m) * trap (f / 6 + 5/6) = m"
    and "m + (M - m) * trap (f / 6 + 1/2) = M + m - Y"
    and "m + (M - m) * trap (f / 6 + 1/6) = M + m - Z"
proof -
  have d: "0 < M - m" using assms(1) by simp
  have "\<bar>f * (M - m)\<bar> \<le> 1 * (M - m)" using assms by (simp add: min_def split: if_splits)
  then have "\<bar>f\<bar> * (M - m) \<le> 1 * (M - m)" using d by (simp add: abs_mult)
  then have "\<bar>f\<bar> \<le> 1" using d by (simp only: mult_le_cancel_right_pos)
  then have f: "- 1 \<le> f" "f \<le> 1" by simp_all
  have "trap (f / 6 + 5/6) = 0" using f by (intro trap_bottom) simp_all
  then show "m + (M - m) * trap (f / 6 + 5/6) = m" by simp
  have fd: "f * (M - m) = Y - Z" by (rule assms(2))
  show "m + (M - m) * trap (f / 6 + 1/2) = M + m - Y"
  proof (cases "0 \<le> f")
    case True
    then have "0 \<le> f * (M - m)" using d by simp
    then have z: "m = Z" using assms(2,3) by (simp add: min_def)
    have "trap (f / 6 + 1/2) = 4 - 6 * (f / 6 + 1/2)" using f True by (intro trap_fall) simp_all
    also have "\<dots> = 1 - f" by simp
    finally have tr: "trap (f / 6 + 1/2) = 1 - f" .
    have "m + (M - m) * trap (f / 6 + 1/2) = m + (M - m) * (1 - f)" by (simp only: tr)
    also have "\<dots> = m + (M - m) - f * (M - m)" by (simp add: algebra_simps)
    also have "\<dots> = m + (M - m) - (Y - Z)" by (simp only: fd)
    also have "\<dots> = M + m - Y" using z by simp
    finally show ?thesis .
  next
    case False
    then have "f * (M - m) < 0" using d by (simp add: mult_less_0_iff)
    then have y: "m = Y" using assms(2,3) by (simp add: min_def)
    have "trap (f / 6 + 1/2) = 1" using f False by (intro trap_top) simp_all
    then show ?thesis using y by simp
  qed
  show "m + (M - m) * trap (f / 6 + 1/6) = M + m - Z"
  proof (cases "0 \<le> f")
    case True
    then have "0 \<le> f * (M - m)" using d by simp
    then have z: "m = Z" using assms(2,3) by (simp add: min_def)
    have "trap (f / 6 + 1/6) = 1" using f True by (intro trap_top) simp_all
    then show ?thesis using z by simp
  next
    case False
    then have "f * (M - m) < 0" using d by (simp add: mult_less_0_iff)
    then have y: "m = Y" using assms(2,3) by (simp add: min_def)
    have "trap (f / 6 + 1/6) = 6 * (f / 6 + 1/6)" using f False by (intro trap_rise) simp_all
    also have "\<dots> = 1 + f" by simp
    finally have tr: "trap (f / 6 + 1/6) = 1 + f" .
    have "m + (M - m) * trap (f / 6 + 1/6) = m + (M - m) * (1 + f)" by (simp only: tr)
    also have "\<dots> = m + (M - m) + f * (M - m)" by (simp add: algebra_simps)
    also have "\<dots> = m + (M - m) + (Y - Z)" by (simp only: fd)
    also have "\<dots> = M + m - Z" using y by simp
    finally show ?thesis .
  qed
qed

subsection \<open>The hue helper in binary64\<close>

lemma ramp_approx:
  assumes p: "- (1/2000) \<le> p" "p \<le> 1 + 1/2000" and q: "- (1/2000) \<le> q" "q \<le> 1 + 1/2000"
    and u: "0 \<le> u" "u \<le> 1/6"
  shows "\<exists>v. fadd (Fin p) (fmul (fmul (fsub (Fin q) (Fin p)) (Fin 6)) (Fin u)) = Fin v \<and>
           \<bar>v - (p + (q - p) * (6 * u))\<bar> \<le> 1/10 ^ 13"
    and "\<exists>v. fadd (Fin p) (fmul (fmul (fsub (Fin q) (Fin p)) (Fin u)) (Fin 6)) = Fin v \<and>
           \<bar>v - (p + (q - p) * (6 * u))\<bar> \<le> 1/10 ^ 13"
proof -
  define k where "k = q - p"
  define d where "d = rnd k"
  define X where "X = k * u"
  define DU where "DU = d * u"
  have "\<bar>k\<bar> \<le> 2 powi 1" using p q by (simp add: abs_le_iff k_def)
  note D = fin_op[OF this, folded d_def]
  have D1: "fin (q - p) = Fin d" using D(1) by (simp add: k_def)
  have tgt: "p + (q - p) * (6 * u) = p + 6 * X" by (simp add: X_def k_def)
  have "\<bar>d - k\<bar> \<le> 2 powi (- 52)" using D(3) by simp
  then have "\<bar>(d - k) * u\<bar> \<le> 2 powi (- 52) * (1/6)" using u by (rule abs_mult_bound)
  moreover have "(d - k) * u = DU - X" by (simp add: X_def DU_def algebra_simps)
  ultimately have "\<bar>DU - X\<bar> \<le> 1/10 ^ 15" by simp
  note d0 = abs_leD[OF this]
  have dabs: "\<bar>d\<bar> \<le> 2" using D(2) by simp
  show "\<exists>v. fadd (Fin p) (fmul (fmul (fsub (Fin q) (Fin p)) (Fin 6)) (Fin u)) = Fin v \<and>
           \<bar>v - (p + (q - p) * (6 * u))\<bar> \<le> 1/10 ^ 13"
  proof -
    define m where "m = rnd (d * 6)"
    define MU where "MU = m * u"
    have "\<bar>d * 6\<bar> \<le> 2 powi 4" using dabs by (simp add: abs_mult)
    note M = fin_op[OF this, folded m_def]
    define w where "w = rnd (m * u)"
    have mabs: "\<bar>m\<bar> \<le> 16" using M(2) by simp
    have "\<bar>m * u\<bar> \<le> 16 * (1/6)" using mabs u by (rule abs_mult_bound)
    then have "\<bar>m * u\<bar> \<le> 2 powi 2" by simp
    note W = fin_op[OF this, folded w_def]
    define v where "v = rnd (p + w)"
    have "\<bar>w\<bar> \<le> 4" using W(2) by simp
    then have "\<bar>p + w\<bar> \<le> 2 powi 3" using p by (simp add: abs_le_iff)
    note V = fin_op[OF this, folded v_def]
    have r: "fadd (Fin p) (fmul (fmul (fsub (Fin q) (Fin p)) (Fin 6)) (Fin u)) = Fin v"
      using D1 M(1) W(1) V(1) by simp
    have "\<bar>m - d * 6\<bar> \<le> 2 powi (- 49)" using M(3) by simp
    then have "\<bar>(m - d * 6) * u\<bar> \<le> 2 powi (- 49) * (1/6)" using u by (rule abs_mult_bound)
    moreover have "(m - d * 6) * u = MU - 6 * DU" by (simp add: MU_def DU_def algebra_simps)
    ultimately have "\<bar>MU - 6 * DU\<bar> \<le> 1/10 ^ 14" by simp
    note e1 = abs_leD[OF this]
    have "\<bar>w - MU\<bar> \<le> 1/10 ^ 14" using W(3) by (simp add: MU_def)
    note e2 = abs_leD[OF this]
    have "\<bar>v - (p + w)\<bar> \<le> 1/10 ^ 14" using V(3) by simp
    note e3 = abs_leD[OF this]
    have "\<bar>v - (p + 6 * X)\<bar> \<le> 1/10 ^ 13"
      by (rule abs_leI) (use d0 e1 e2 e3 in simp)+
    with r show ?thesis unfolding tgt by blast
  qed
  show "\<exists>v. fadd (Fin p) (fmul (fmul (fsub (Fin q) (Fin p)) (Fin u)) (Fin 6)) = Fin v \<and>
           \<bar>v - (p + (q - p) * (6 * u))\<bar> \<le> 1/10 ^ 13"
  proof -
    define m where "m = rnd (d * u)"
    have "\<bar>d * u\<bar> \<le> 2 * (1/6)" using dabs u by (rule abs_mult_bound)
    then have "\<bar>d * u\<bar> \<le> 2 powi 0" by simp
    note M = fin_op[OF this, folded m_def]
    define w where "w = rnd (m * 6)"
    have mabs: "\<bar>m\<bar> \<le> 1" using M(2) by simp
    then have "\<bar>m * 6\<bar> \<le> 2 powi 3" by (simp add: abs_mult)
    note W = fin_op[OF this, folded w_def]
    define v where "v = rnd (p + w)"
    have "\<bar>w\<bar> \<le> 8" using W(2) by simp
    then have "\<bar>p + w\<bar> \<le> 2 powi 4" using p by (simp add: abs_le_iff)
    note V = fin_op[OF this, folded v_def]
    have r: "fadd (Fin p) (fmul (fmul (fsub (Fin q) (Fin p)) (Fin u)) (Fin 6)) = Fin v"
      using D1 M(1) W(1) V(1) by simp
    have "\<bar>m - DU\<bar> \<le> 1/10 ^ 15" using M(3) by (simp add: DU_def)
    note e1 = abs_leD[OF this]
    have "\<bar>w - m * 6\<bar> \<le> 1/10 ^ 14" using W(3) by simp
    note e2 = abs_leD[OF this]
    have "\<bar>v - (p + w)\<bar> \<le> 1/10 ^ 14" using V(3) by simp
    note e3 = abs_leD[OF this]
    have "\<bar>v - (p + 6 * X)\<bar> \<le> 1/10 ^ 13"
      by (rule abs_leI) (use d0 e1 e2 e3 in simp)+
    with r show ?thesis unfolding tgt by blast
  qed
qed

lemma trap_next: "trap (t + 1) = trap t" "trap (t - 1) = trap t"
  using trap_shift[of t 1] trap_shift[of t "- 1"] by simp_all

lemma trap_near:
  assumes "\<bar>x - y\<bar> \<le> e"
  shows "\<bar>trap x - trap y\<bar> \<le> 6 * e"
proof -
  have "6 * \<bar>x - y\<bar> \<le> 6 * e" using assms by simp
  with trap_lip[of x y] show ?thesis by (rule order_trans)
qed

lemma scaled_near:
  fixes k x y :: rat
  assumes "\<bar>k\<bar> \<le> c" "\<bar>x - y\<bar> \<le> e" "0 \<le> c"
  shows "\<bar>k * x - k * y\<bar> \<le> c * e"
proof -
  have "\<bar>k * x - k * y\<bar> = \<bar>k\<bar> * \<bar>x - y\<bar>" by (simp add: abs_mult right_diff_distrib[symmetric])
  also have "\<dots> \<le> c * e" using assms by (intro mult_mono) simp_all
  finally show ?thesis .
qed

lemma hueToRgb_approx:
  assumes p: "- (1/2000) \<le> p" "p \<le> 1 + 1/2000" and q: "- (1/2000) \<le> q" "q \<le> 1 + 1/2000"
    and t: "- 1 \<le> t" "t \<le> 2"
  shows "\<exists>v. hueToRgb (Fin p) (Fin q) (Fin t) = Fin v \<and>
           \<bar>v - (p + (q - p) * trap t)\<bar> \<le> 1/10 ^ 12"
proof -
  define t1 where "t1 = (if t < 0 then rnd (t + 1) else t)"
  define t2 where "t2 = (if 1 < t1 then rnd (t1 - 1) else t1)"
  define c6 :: rat where "c6 = 6004799503160661 / 36028797018963968"
  define c23 :: rat where "c23 = 6004799503160661 / 9007199254740992"
  define k where "k = q - p"
  have kabs: "\<bar>k\<bar> \<le> 2" using p q by (simp add: k_def abs_le_iff)
  have T1: "(if t < 0 then fadd (Fin t) (Fin 1) else Fin t) = Fin t1"
    and t1b: "0 \<le> t1" "t1 \<le> 2" and t1e: "\<bar>trap t1 - trap t\<bar> \<le> 1/10 ^ 15"
  proof -
    show "(if t < 0 then fadd (Fin t) (Fin 1) else Fin t) = Fin t1"
    proof (cases "t < 0")
      case True
      then have "\<bar>t + 1\<bar> \<le> 2 powi 0" using t(1) by simp
      then have "fin (t + 1) = Fin (rnd (t + 1))" by (rule fin_Fin) simp_all
      then show ?thesis using True by (simp add: t1_def)
    next
      case False
      then show ?thesis by (simp add: t1_def)
    qed
    show "0 \<le> t1" using t(1) by (auto simp: t1_def intro!: rnd_nonneg)
    show "t1 \<le> 2"
    proof (cases "t < 0")
      case True
      then have "rnd (t + 1) \<le> 1" by (intro rnd_le) simp_all
      then show ?thesis using True by (simp add: t1_def)
    next
      case False
      then show ?thesis using t(2) by (simp add: t1_def)
    qed
    show "\<bar>trap t1 - trap t\<bar> \<le> 1/10 ^ 15"
    proof (cases "t < 0")
      case True
      then have "\<bar>t + 1\<bar> \<le> 2 powi 0" using t(1) by simp
      then have "\<bar>rnd (t + 1) - (t + 1)\<bar> \<le> 2 powi (0 - 53)" by (rule rnd_abs_err) simp
      from trap_near[OF this] show ?thesis using True by (simp add: t1_def trap_next)
    next
      case False
      then show ?thesis by (simp add: t1_def)
    qed
  qed
  have T2: "(if 1 < t1 then fsub (Fin t1) (Fin 1) else Fin t1) = Fin t2"
    and t2b: "0 \<le> t2" "t2 \<le> 1" and t2e: "\<bar>trap t2 - trap t1\<bar> \<le> 1/10 ^ 15"
  proof -
    show "(if 1 < t1 then fsub (Fin t1) (Fin 1) else Fin t1) = Fin t2"
    proof (cases "1 < t1")
      case True
      then have "\<bar>t1 - 1\<bar> \<le> 2 powi 0" using t1b(2) by simp
      then have "fin (t1 - 1) = Fin (rnd (t1 - 1))" by (rule fin_Fin) simp_all
      then show ?thesis using True by (simp add: t2_def)
    next
      case False
      then show ?thesis by (simp add: t2_def)
    qed
    show "0 \<le> t2" using t1b(1) by (auto simp: t2_def intro!: rnd_nonneg)
    show "t2 \<le> 1"
    proof (cases "1 < t1")
      case True
      then have "rnd (t1 - 1) \<le> 1" using t1b(2) by (intro rnd_le) simp_all
      then show ?thesis using True by (simp add: t2_def)
    next
      case False
      then show ?thesis by (simp add: t2_def)
    qed
    show "\<bar>trap t2 - trap t1\<bar> \<le> 1/10 ^ 15"
    proof (cases "1 < t1")
      case True
      then have "\<bar>t1 - 1\<bar> \<le> 2 powi 0" using t1b(2) by simp
      then have "\<bar>rnd (t1 - 1) - (t1 - 1)\<bar> \<le> 2 powi (0 - 53)" by (rule rnd_abs_err) simp
      from trap_near[OF this] show ?thesis using True by (simp add: t2_def trap_next)
    next
      case False
      then show ?thesis by (simp add: t2_def)
    qed
  qed
  have "\<bar>trap t2 - trap t\<bar> \<le> 1/10 ^ 15 + 1/10 ^ 15" using t2e t1e by (rule abs_tri)
  then have te: "\<bar>trap t2 - trap t\<bar> \<le> 2/10 ^ 15" by simp
  have "\<bar>k * trap t2 - k * trap t\<bar> \<le> 2 * (2/10 ^ 15)" using kabs te by (rule scaled_near) simp
  then have ke: "\<bar>(p + k * trap t2) - (p + k * trap t)\<bar> \<le> 4/10 ^ 15" by simp
  have c6: "fdiv (Fin 1) (Fin 6) = Fin c6" using fin_sixth by (simp add: c6_def)
  have c23: "fdiv (Fin 2) (Fin 3) = Fin c23" using fin_two_thirds by (simp add: c23_def)
  have c12: "fdiv (Fin 1) (Fin 2) = Fin (1/2)" by simp
  have H: "hueToRgb (Fin p) (Fin q) (Fin t) =
      (if t2 < c6 then fadd (Fin p) (fmul (fmul (fsub (Fin q) (Fin p)) (Fin 6)) (Fin t2))
       else if t2 < 1/2 then Fin q
       else if t2 < c23 then fadd (Fin p) (fmul (fmul (fsub (Fin q) (Fin p)) (fsub (Fin c23) (Fin t2))) (Fin 6))
       else Fin p)"
    unfolding hueToRgb_def Let_def flt_Fin T1 T2 c6 c23 c12 by (rule refl)
  have main: "\<exists>v. hueToRgb (Fin p) (Fin q) (Fin t) = Fin v \<and>
           \<bar>v - (p + k * trap t2)\<bar> \<le> 1/10 ^ 13 + 2/10 ^ 14"
  proof (cases "t2 < c6")
    case True
    then have le: "t2 \<le> 1/6" by (simp add: c6_def)
    have "trap t2 = 6 * t2" using t2b(1) le by (rule trap_rise)
    with ramp_approx(1)[OF p q t2b(1) le] True show ?thesis by (auto simp: H k_def)
  next
    case n1: False
    show ?thesis
    proof (cases "t2 < 1/2")
      case True
      have tt: "\<bar>trap t2 - 1\<bar> \<le> 1/10 ^ 15"
      proof (cases "1/6 \<le> t2")
        case True
        then have "trap t2 = 1" using \<open>t2 < 1/2\<close> by (intro trap_top) simp_all
        then show ?thesis by simp
      next
        case False
        then have "\<bar>t2 - 1/6\<bar> \<le> 1/10 ^ 16" using n1 by (simp add: c6_def)
        from trap_near[OF this] have "\<bar>trap t2 - trap (1/6)\<bar> \<le> 6 * (1/10 ^ 16)" .
        moreover have "trap (1/6) = 1" by (rule trap_top) simp_all
        ultimately show ?thesis by simp
      qed
      define KT where "KT = k * trap t2"
      from scaled_near[OF kabs tt] have "\<bar>KT - k\<bar> \<le> 2/10 ^ 15" by (simp add: KT_def)
      note kt = abs_leD[OF this]
      have "q = p + k" by (simp add: k_def)
      then have "\<bar>q - (p + KT)\<bar> \<le> 1/10 ^ 13 + 2/10 ^ 14"
        using kt by (intro abs_leI) simp_all
      then have "\<bar>q - (p + k * trap t2)\<bar> \<le> 1/10 ^ 13 + 2/10 ^ 14" by (simp only: KT_def)
      then show ?thesis using True n1 by (simp add: H)
    next
      case n2: False
      show ?thesis
      proof (cases "t2 < c23")
        case True
        define u where "u = rnd (c23 - t2)"
        have b0: "\<bar>c23 - t2\<bar> \<le> 2 powi 0" using True n2 by (simp add: c23_def)
        then have f: "fin (c23 - t2) = Fin u" unfolding u_def by (rule fin_Fin) simp_all
        have u0: "0 \<le> u" unfolding u_def using True by (intro rnd_nonneg) simp
        have "rnd (1501199875790165 / 9007199254740992) = 1501199875790165 / 9007199254740992"
          using rnd_exact[of 1501199875790165 "- 53"] by simp
        moreover have "c23 - t2 \<le> 1501199875790165 / 9007199254740992"
          using n2 by (simp add: c23_def)
        ultimately have "u \<le> 1501199875790165 / 9007199254740992"
          unfolding u_def by (intro rnd_le)
        then have u1: "u \<le> 1/6" by simp
        have "\<bar>u - (c23 - t2)\<bar> \<le> 2 powi (0 - 53)" unfolding u_def using b0 by (rule rnd_abs_err) simp
        note ud = abs_leD[OF this]
        have "\<bar>u - (2/3 - t2)\<bar> \<le> 1/10 ^ 15"
          by (rule abs_leI) (use ud in \<open>simp add: c23_def\<close>)+
        from scaled_near[OF _ this, of 6 6] have "\<bar>6 * u - 6 * (2/3 - t2)\<bar> \<le> 6 * (1/10 ^ 15)" by simp
        moreover have "t2 \<le> 2/3" using True by (simp add: c23_def)
        then have "trap t2 = 4 - 6 * t2" using n2 by (intro trap_fall) simp_all
        ultimately have "\<bar>6 * u - trap t2\<bar> \<le> 6/10 ^ 15" by simp
        from scaled_near[OF kabs this] have ue: "\<bar>(p + k * (6 * u)) - (p + k * trap t2)\<bar> \<le> 2/10 ^ 14" by simp
        from ramp_approx(2)[OF p q u0 u1] obtain v where
          v: "fadd (Fin p) (fmul (fmul (fsub (Fin q) (Fin p)) (Fin u)) (Fin 6)) = Fin v"
             "\<bar>v - (p + k * (6 * u))\<bar> \<le> 1/10 ^ 13" unfolding k_def by blast
        have "\<bar>v - (p + k * trap t2)\<bar> \<le> 1/10 ^ 13 + 2/10 ^ 14" using v(2) ue by (rule abs_tri)
        with v(1) True n1 n2 show ?thesis by (simp add: H f)
      next
        case False
        have tt: "\<bar>trap t2 - 0\<bar> \<le> 1/10 ^ 15"
        proof (cases "2/3 \<le> t2")
          case True
          then have "trap t2 = 0" using t2b(2) by (intro trap_bottom) simp_all
          then show ?thesis by simp
        next
          case n3: False
          then have "\<bar>t2 - 2/3\<bar> \<le> 1/10 ^ 16" using False by (simp add: c23_def)
          from trap_near[OF this] have "\<bar>trap t2 - trap (2/3)\<bar> \<le> 6 * (1/10 ^ 16)" .
          moreover have "trap (2/3) = 0" by (rule trap_bottom) simp_all
          ultimately show ?thesis by simp
        qed
        define KT where "KT = k * trap t2"
        from scaled_near[OF kabs tt] have "\<bar>KT\<bar> \<le> 2/10 ^ 15" by (simp add: KT_def)
        then have "\<bar>p - (p + KT)\<bar> \<le> 1/10 ^ 13 + 2/10 ^ 14" by simp
        then have "\<bar>p - (p + k * trap t2)\<bar> \<le> 1/10 ^ 13 + 2/10 ^ 14" by (simp only: KT_def)
        then show ?thesis using False n1 n2 by (simp add: H)
      qed
    qed
  qed
  then obtain v where v: "hueToRgb (Fin p) (Fin q) (Fin t) = Fin v"
    "\<bar>v - (p + k * trap t2)\<bar> \<le> 1/10 ^ 13 + 2/10 ^ 14" by blast
  have "\<bar>v - (p + k * trap t)\<bar> \<le> (1/10 ^ 13 + 2/10 ^ 14) + 4/10 ^ 15" using v(2) ke by (rule abs_tri)
  then have "\<bar>v - (p + (q - p) * trap t)\<bar> \<le> 1/10 ^ 12" by (simp add: k_def)
  with v(1) show ?thesis by blast
qed

subsection \<open>Lightness, saturation and hue of integer channels\<close>

lemma unit255_props:
  assumes "n \<le> 255"
  shows "fdiv (Fin (of_nat n)) (Fin 255) = Fin (unit255 n)" "0 \<le> unit255 n" "unit255 n \<le> 1"
    "\<bar>unit255 n - of_nat n / 255\<bar> \<le> 2 powi (- 53)" "rnd (unit255 n) = unit255 n"
  using gray_unit[OF assms] by (simp_all add: unit255_def)

lemma unit255_mono: "mono unit255"
  by (rule monoI) (simp add: unit255_def rnd_mono divide_right_mono)

lemma unit255_less:
  assumes "n < k" "k \<le> 255"
  shows "unit255 n < unit255 k"
proof -
  have n: "n \<le> 255" using assms by simp
  note a = abs_leD[OF unit255_props(4)[OF n]] abs_leD[OF unit255_props(4)[OF assms(2)]]
  have "n + 1 \<le> k" using assms(1) by simp
  then have "(of_nat (n + 1) :: rat) \<le> of_nat k" by (simp only: of_nat_le_iff)
  then have "(of_nat n :: rat) / 255 + 1/255 \<le> of_nat k / 255" by simp
  then show ?thesis using a by simp
qed

lemma unit255_less_iff:
  assumes "n \<le> 255" "k \<le> 255"
  shows "(unit255 n < unit255 k) = (n < k)"
proof
  assume "unit255 n < unit255 k"
  show "n < k"
  proof (rule ccontr)
    assume "\<not> n < k"
    then have "k \<le> n" by simp
    then have "unit255 k \<le> unit255 n" using unit255_mono by (simp add: monoD)
    with \<open>unit255 n < unit255 k\<close> show False by simp
  qed
next
  assume "n < k"
  then show "unit255 n < unit255 k" using assms(2) by (rule unit255_less)
qed

lemma unit255_eq_iff:
  assumes "n \<le> 255" "k \<le> 255"
  shows "(unit255 n = unit255 k) = (n = k)"
proof
  assume e: "unit255 n = unit255 k"
  show "n = k"
  proof (rule ccontr)
    assume "n \<noteq> k"
    then consider "n < k" | "k < n" by arith
    then show False
    proof cases
      case 1
      from unit255_less[OF this assms(2)] e show False by simp
    next
      case 2
      from unit255_less[OF this assms(1)] e show False by simp
    qed
  qed
qed simp

lemma unit255_max: "max (max (unit255 R) (unit255 G)) (unit255 B) = unit255 (max (max R G) B)"
  by (simp only: max_of_mono[OF unit255_mono])

lemma unit255_min: "min (min (unit255 R) (unit255 G)) (unit255 B) = unit255 (min (min R G) B)"
  by (simp only: min_of_mono[OF unit255_mono])

lemma quot_near:
  fixes x y a b e c :: rat
  assumes "\<bar>x - a\<bar> \<le> e" "\<bar>y - b\<bar> \<le> e" "c \<le> y" "0 < c" "0 < b" "\<bar>a\<bar> \<le> b"
  shows "\<bar>x / y - a / b\<bar> \<le> 2 * e / c"
proof -
  have y: "0 < y" using assms(3,4) by simp
  have e0: "0 \<le> e" using assms(1) by simp
  have "\<bar>a / b\<bar> = \<bar>a\<bar> / b" using assms(5) by simp
  then have "\<bar>a / b\<bar> \<le> 1" using assms(5,6) by simp
  then have "\<bar>a / b\<bar> * \<bar>y - b\<bar> \<le> 1 * e" using assms(2) e0 by (intro mult_mono) simp_all
  then have f: "\<bar>(a / b) * (y - b)\<bar> \<le> e" by (simp add: abs_mult)
  define N where "N = (x - a) - (a / b) * (y - b)"
  have "\<bar>N\<bar> \<le> \<bar>x - a\<bar> + \<bar>(a / b) * (y - b)\<bar>" unfolding N_def by (rule abs_triangle_ineq4)
  then have N: "\<bar>N\<bar> \<le> 2 * e" using assms(1) f by simp
  have "x / y - a / b = N / y" using y assms(5) by (simp add: N_def field_simps)
  then have "\<bar>x / y - a / b\<bar> = \<bar>N\<bar> / y" using y by simp
  also have "\<dots> \<le> (2 * e) / c" using N y assms(3,4) e0 by (intro frac_le) simp_all
  finally show ?thesis .
qed

lemma prod_near:
  fixes x y a b :: rat
  assumes "\<bar>x - a\<bar> \<le> e1" "\<bar>y - b\<bar> \<le> e2" "\<bar>y\<bar> \<le> cy" "\<bar>a\<bar> \<le> ca"
  shows "\<bar>x * y - a * b\<bar> \<le> e1 * cy + ca * e2"
proof -
  have e1: "0 \<le> e1" using assms(1) by simp
  have ca: "0 \<le> ca" using assms(4) by simp
  have "x * y - a * b = (x - a) * y + a * (y - b)" by (simp add: algebra_simps)
  then have "\<bar>x * y - a * b\<bar> \<le> \<bar>(x - a) * y\<bar> + \<bar>a * (y - b)\<bar>" by (simp only: abs_triangle_ineq)
  also have "\<dots> = \<bar>x - a\<bar> * \<bar>y\<bar> + \<bar>a\<bar> * \<bar>y - b\<bar>" by (simp add: abs_mult)
  also have "\<dots> \<le> e1 * cy + ca * e2"
    using assms e1 ca by (intro add_mono mult_mono) simp_all
  finally show ?thesis .
qed


lemma sat_quot:
  fixes d D dl b :: rat
  assumes de: "\<bar>d - dl / 255\<bar> \<le> 1/10 ^ 15" and De: "\<bar>D - b / 255\<bar> \<le> 1/10 ^ 15"
    and dD: "d \<le> D" and d: "1/256 \<le> d" and dl: "1 \<le> dl" "dl \<le> b" and b: "b \<le> 255"
  shows "\<exists>sv. fdiv (Fin d) (Fin D) = Fin sv \<and> 1/256 \<le> sv \<and> sv \<le> 1 \<and>
           \<bar>sv - dl / b\<bar> \<le> 1/10 ^ 12"
proof -
  define sv where "sv = rnd (d / D)"
  define Q where "Q = d / D"
  define Q0 where "Q0 = dl / b"
  have D: "1/256 \<le> D" "0 < D" using d dD by simp_all
  have q: "0 \<le> d / D" "d / D \<le> 1" using d dD D by simp_all
  note U = rnd_unit[OF q, folded sv_def]
  have f: "fdiv (Fin d) (Fin D) = Fin sv" using D(2) U(1) by simp
  have "\<bar>d / D\<bar> \<le> 2 powi 0" using q by simp
  then have "\<bar>rnd (d / D) - d / D\<bar> \<le> 2 powi (0 - 53)" by (rule rnd_abs_err) simp
  then have e1: "\<bar>sv - Q\<bar> \<le> 2/10 ^ 16" by (simp add: sv_def Q_def)
  have b0: "0 < b" using dl by simp
  have "\<bar>d / D - (dl / 255) / (b / 255)\<bar> \<le> 2 * (1/10 ^ 15) / (1/256)"
    using de De D(1) by (rule quot_near) (use dl b0 in simp_all)
  then have e2: "\<bar>Q - Q0\<bar> \<le> 6/10 ^ 13" by (simp add: Q_def Q0_def)
  have "1 / 255 \<le> dl / b" using dl b b0 by (intro frac_le) simp_all
  then have lo: "1/255 \<le> Q0" by (simp add: Q0_def)
  have "\<bar>sv - Q0\<bar> \<le> 2/10 ^ 16 + 6/10 ^ 13" using e1 e2 by (rule abs_tri)
  then have e: "\<bar>sv - Q0\<bar> \<le> 1/10 ^ 12" by simp
  note e' = abs_leD[OF e]
  have "1/256 \<le> sv" using e'(2) lo by simp
  with f U(3) e show ?thesis unfolding Q0_def by blast
qed

lemma light_sat:
  fixes M m :: nat
  assumes mM: "m < M" "M \<le> 255"
  defines "Mx \<equiv> unit255 M" and "mn \<equiv> unit255 m"
  shows "\<exists>lv sv d. fdiv (fadd (Fin Mx) (Fin mn)) (Fin 2) = Fin lv \<and>
           fsub (Fin Mx) (Fin mn) = Fin d \<and>
           (if flt (Fin (1/2)) (Fin lv) then fdiv (Fin d) (fsub (fsub (Fin 2) (Fin Mx)) (Fin mn))
            else fdiv (Fin d) (fadd (Fin Mx) (Fin mn))) = Fin sv \<and>
           0 \<le> lv \<and> lv \<le> 1 \<and> \<bar>lv - (of_nat M + of_nat m) / 510\<bar> \<le> 1/10 ^ 15 \<and>
           1/256 \<le> d \<and> d \<le> 1 \<and> \<bar>d - (of_nat M - of_nat m) / 255\<bar> \<le> 1/10 ^ 15 \<and>
           1/256 \<le> sv \<and> sv \<le> 1 \<and>
           \<bar>sv - (of_nat M - of_nat m) / (255 - \<bar>255 - (of_nat M + of_nat m)\<bar>)\<bar> \<le> 1/10 ^ 12"
proof -
  define sg :: rat where "sg = of_nat M + of_nat m"
  define dl :: rat where "dl = of_nat M - of_nat m"
  define M0 :: rat where "M0 = of_nat M / 255"
  define m0 :: rat where "m0 = of_nat m / 255"
  have m255: "m \<le> 255" using mM by simp
  note PM = unit255_props[OF mM(2), folded Mx_def M0_def]
  note Pm = unit255_props[OF m255, folded mn_def m0_def]
  have "m + 1 \<le> M" using mM(1) by simp
  then have "(of_nat (m + 1) :: rat) \<le> of_nat M" by (simp only: of_nat_le_iff)
  then have dl1: "1 \<le> dl" by (simp add: dl_def)
  have "(of_nat M :: rat) \<le> of_nat 255" using mM(2) by (simp only: of_nat_le_iff)
  then have M255: "(of_nat M :: rat) \<le> 255" by simp
  have mnn: "(0::rat) \<le> of_nat m" by simp
  have sg_eq: "sg / 255 = M0 + m0" by (simp add: sg_def M0_def m0_def add_divide_distrib)
  have dl_eq: "dl / 255 = M0 - m0" by (simp add: dl_def M0_def m0_def diff_divide_distrib)
  have le: "mn \<le> Mx" unfolding Mx_def mn_def using mM(1) unit255_mono by (simp add: monoD)
  have "\<bar>Mx - M0\<bar> \<le> 2/10 ^ 16" using PM(4) by simp
  note eM = abs_leD[OF this]
  have "\<bar>mn - m0\<bar> \<le> 2/10 ^ 16" using Pm(4) by simp
  note em = abs_leD[OF this]
  define S where "S = rnd (Mx + mn)"
  have "\<bar>Mx + mn\<bar> \<le> 2 powi 1" using PM(2,3) Pm(2,3) by simp
  note SS = fin_op[OF this, folded S_def]
  have Sf: "fin (Mx + mn) = Fin S" using SS(1) by simp
  have S0: "0 \<le> S" unfolding S_def using PM(2) Pm(2) by (intro rnd_nonneg) simp
  have S2: "S \<le> 2" unfolding S_def using PM(3) Pm(3) by (intro rnd_le) simp_all
  have "\<bar>S - (Mx + mn)\<bar> \<le> 3/10 ^ 16" using SS(3) by simp
  note eS = abs_leD[OF this]
  have Se: "\<bar>S - sg / 255\<bar> \<le> 1/10 ^ 15"
    unfolding sg_eq by (rule abs_leI) (use eS eM em in simp)+
  note Se' = abs_leD[OF Se]
  define lv where "lv = rnd (S / 2)"
  have "0 \<le> S / 2" "S / 2 \<le> 1" using S0 S2 by simp_all
  note L = rnd_unit[OF this, folded lv_def]
  have Lf: "fdiv (fadd (Fin Mx) (Fin mn)) (Fin 2) = Fin lv" using Sf L(1) by simp
  have "\<bar>S / 2\<bar> \<le> 2 powi 0" using S0 S2 by simp
  then have "\<bar>rnd (S / 2) - S / 2\<bar> \<le> 2 powi (0 - 53)" by (rule rnd_abs_err) simp
  then have "\<bar>lv - S / 2\<bar> \<le> 2/10 ^ 16" by (simp add: lv_def)
  note eL = abs_leD[OF this]
  have Le: "\<bar>lv - sg / 510\<bar> \<le> 1/10 ^ 15"
    by (rule abs_leI) (use eL Se' in simp)+
  note Le' = abs_leD[OF Le]
  define d where "d = rnd (Mx - mn)"
  have "\<bar>Mx - mn\<bar> \<le> 2 powi 0" using PM(2,3) Pm(2,3) by simp
  note DD = fin_op[OF this, folded d_def]
  have Df: "fsub (Fin Mx) (Fin mn) = Fin d" using DD(1) by simp
  have "\<bar>d - (Mx - mn)\<bar> \<le> 2/10 ^ 16" using DD(3) by simp
  note eD = abs_leD[OF this]
  have de: "\<bar>d - dl / 255\<bar> \<le> 1/10 ^ 15"
    unfolding dl_eq by (rule abs_leI) (use eD eM em in simp)+
  have r256: "rnd (1/256) = 1/256" using rnd_pow2[of "- 8"] by simp
  have "1 / 255 \<le> dl / 255" using dl1 by simp
  then have "1/256 \<le> Mx - mn" unfolding dl_eq using eM em by simp
  then have dge: "1/256 \<le> d" unfolding d_def using r256 by (rule rnd_ge)
  have dle: "d \<le> 1" unfolding d_def using PM(3) Pm(2) by (intro rnd_le) simp_all
  have sgn: "sg = of_nat (M + m)" by (simp add: sg_def)
  have "\<exists>sv. (if flt (Fin (1/2)) (Fin lv) then fdiv (Fin d) (fsub (fsub (Fin 2) (Fin Mx)) (Fin mn))
            else fdiv (Fin d) (fadd (Fin Mx) (Fin mn))) = Fin sv \<and> 1/256 \<le> sv \<and> sv \<le> 1 \<and>
           \<bar>sv - dl / (255 - \<bar>255 - sg\<bar>)\<bar> \<le> 1/10 ^ 12"
  proof (cases "1/2 < lv")
    case True
    have sg255: "255 \<le> sg"
    proof (rule ccontr)
      assume "\<not> 255 \<le> sg"
      then have "of_nat (M + m) < (of_nat 255 :: rat)" by (simp add: sgn)
      then have "M + m < 255" by (simp only: of_nat_less_iff)
      then have "M + m \<le> 254" by simp
      then have "(of_nat (M + m) :: rat) \<le> of_nat 254" by (simp only: of_nat_le_iff)
      then have "sg \<le> 254" by (simp add: sgn)
      then show False using Le'(1) True by simp
    qed
    define D1 where "D1 = rnd (2 - Mx)"
    have "\<bar>2 - Mx\<bar> \<le> 2 powi 1" using PM(2,3) by simp
    note A = fin_op[OF this, folded D1_def]
    have Af: "fin (2 - Mx) = Fin D1" using A(1) by simp
    have D1lo: "1 \<le> D1" unfolding D1_def using PM(3) by (intro rnd_ge) simp_all
    have D1hi: "D1 \<le> 2" unfolding D1_def using PM(2) by (intro rnd_le) simp_all
    have "\<bar>D1 - (2 - Mx)\<bar> \<le> 3/10 ^ 16" using A(3) by simp
    note eA = abs_leD[OF this]
    define D where "D = rnd (D1 - mn)"
    have "\<bar>D1 - mn\<bar> \<le> 2 powi 1" using D1lo D1hi Pm(2,3) by simp
    note B = fin_op[OF this, folded D_def]
    have Bf: "fin (D1 - mn) = Fin D" using B(1) by simp
    have "\<bar>D - (D1 - mn)\<bar> \<le> 3/10 ^ 16" using B(3) by simp
    note eB = abs_leD[OF this]
    have "Mx - mn \<le> D1 - mn" using PM(3) D1lo by simp
    then have dD: "d \<le> D" unfolding d_def D_def by (rule rnd_mono)
    have "(510 - sg) / 255 = 2 - sg / 255" by (simp add: diff_divide_distrib)
    then have "(510 - sg) / 255 = 2 - M0 - m0" by (simp add: sg_eq)
    have De: "\<bar>D - (510 - sg) / 255\<bar> \<le> 1/10 ^ 15"
      unfolding \<open>(510 - sg) / 255 = 2 - M0 - m0\<close>
      by (rule abs_leI) (use eA eB eM em in simp)+
    have "dl \<le> 510 - sg" using M255 by (simp add: dl_def sg_def)
    from sat_quot[OF de De dD dge dl1 this] sg255 obtain sv where
      "fdiv (Fin d) (Fin D) = Fin sv" "1/256 \<le> sv" "sv \<le> 1" "\<bar>sv - dl / (510 - sg)\<bar> \<le> 1/10 ^ 12"
      by auto
    moreover have "255 - \<bar>255 - sg\<bar> = 510 - sg" using sg255 by simp
    ultimately show ?thesis using True Af Bf by (intro exI[of _ sv]) simp
  next
    case False
    have sg255: "sg \<le> 255"
    proof (rule ccontr)
      assume "\<not> sg \<le> 255"
      then have "(of_nat 255 :: rat) < of_nat (M + m)" by (simp add: sgn)
      then have "255 < M + m" by (simp only: of_nat_less_iff)
      then have "256 \<le> M + m" by simp
      then have "(of_nat 256 :: rat) \<le> of_nat (M + m)" by (simp only: of_nat_le_iff)
      then have "256 \<le> sg" by (simp add: sgn)
      then show False using Le'(2) False by simp
    qed
    have "Mx - mn \<le> Mx + mn" using Pm(2) by simp
    then have dD: "d \<le> S" unfolding d_def S_def by (rule rnd_mono)
    have "dl \<le> sg" by (simp add: dl_def sg_def)
    from sat_quot[OF de Se dD dge dl1 this sg255] obtain sv where
      "fdiv (Fin d) (Fin S) = Fin sv" "1/256 \<le> sv" "sv \<le> 1" "\<bar>sv - dl / sg\<bar> \<le> 1/10 ^ 12"
      by auto
    moreover have "255 - \<bar>255 - sg\<bar> = sg" using sg255 by simp
    ultimately show ?thesis using False Sf by (intro exI[of _ sv]) simp
  qed
  then obtain sv where sv: "(if flt (Fin (1/2)) (Fin lv) then fdiv (Fin d) (fsub (fsub (Fin 2) (Fin Mx)) (Fin mn))
            else fdiv (Fin d) (fadd (Fin Mx) (Fin mn))) = Fin sv" "1/256 \<le> sv" "sv \<le> 1"
           "\<bar>sv - dl / (255 - \<bar>255 - sg\<bar>)\<bar> \<le> 1/10 ^ 12" by blast
  show ?thesis
    using Lf Df sv L(2,3) Le dge dle de unfolding sg_def dl_def by blast
qed

lemma hue_value:
  fixes Y Z :: nat and d dl c :: rat
  assumes Y: "Y \<le> 255" and Z: "Z \<le> 255"
    and de: "\<bar>d - dl / 255\<bar> \<le> 1/10 ^ 15" and d: "1/256 \<le> d"
    and dl: "1 \<le> dl" "dl \<le> 255" and yz: "\<bar>of_nat Y - of_nat Z\<bar> \<le> dl"
    and c: "c = 0 \<or> c = 2 \<or> c = 4 \<or> c = 6" "c = 0 \<longrightarrow> Z \<le> Y" "c = 6 \<longrightarrow> Y < Z"
  shows "\<exists>hv. fmul (fadd (fdiv (fsub (Fin (unit255 Y)) (Fin (unit255 Z))) (Fin d)) (Fin c)) (Fin 60)
              = Fin hv \<and> 0 \<le> hv \<and> hv < 360 \<and>
           \<bar>hv - 60 * ((of_nat Y - of_nat Z) / dl + c)\<bar> \<le> 1/10 ^ 10"
proof -
  define Y0 :: rat where "Y0 = of_nat Y / 255"
  define Z0 :: rat where "Z0 = of_nat Z / 255"
  define f :: rat where "f = (of_nat Y - of_nat Z) / dl"
  note PY = unit255_props[OF Y, folded Y0_def]
  note PZ = unit255_props[OF Z, folded Z0_def]
  have "\<bar>unit255 Y - Y0\<bar> \<le> 2/10 ^ 16" using PY(4) by simp
  note eY = abs_leD[OF this]
  have "\<bar>unit255 Z - Z0\<bar> \<le> 2/10 ^ 16" using PZ(4) by simp
  note eZ = abs_leD[OF this]
  define n where "n = rnd (unit255 Y - unit255 Z)"
  have "\<bar>unit255 Y - unit255 Z\<bar> \<le> 2 powi 0" using PY(2,3) PZ(2,3) by simp
  note N = fin_op[OF this, folded n_def]
  have Nf: "fin (unit255 Y - unit255 Z) = Fin n" using N(1) by simp
  have nabs: "\<bar>n\<bar> \<le> 1" using N(2) by simp
  have "\<bar>n - (unit255 Y - unit255 Z)\<bar> \<le> 2/10 ^ 16" using N(3) by simp
  note eN = abs_leD[OF this]
  have a_eq: "(of_nat Y - of_nat Z) / 255 = Y0 - Z0"
    by (simp add: Y0_def Z0_def diff_divide_distrib)
  have ne: "\<bar>n - (of_nat Y - of_nat Z) / 255\<bar> \<le> 1/10 ^ 15"
    unfolding a_eq by (rule abs_leI) (use eN eY eZ in simp)+
  have d0: "0 < d" using d by simp
  have "\<bar>n / d\<bar> = \<bar>n\<bar> / d" using d0 by simp
  also have "\<dots> \<le> 1 / (1/256)" using nabs d by (intro frac_le) simp_all
  finally have "\<bar>n / d\<bar> \<le> 2 powi 8" by simp
  define hq where "hq = rnd (n / d)"
  note Q = fin_op[OF \<open>\<bar>n / d\<bar> \<le> 2 powi 8\<close>, folded hq_def]
  have Qf: "fdiv (Fin n) (Fin d) = Fin hq" using Q(1) d0 by simp
  have g: "(x / 255) / (y / 255) = x / y" for x y :: rat by simp
  have qn: "\<bar>n / d - ((of_nat Y - of_nat Z) / 255) / (dl / 255)\<bar> \<le> 2 * (1/10 ^ 15) / (1/256)"
    using ne de d by (rule quot_near) (use dl yz in simp_all)
  have "\<bar>n / d - f\<bar> \<le> 2 * (1/10 ^ 15) / (1/256)" using qn unfolding g f_def .
  then have "\<bar>n / d - f\<bar> \<le> 6/10 ^ 13" by simp
  moreover have "\<bar>hq - n / d\<bar> \<le> 3/10 ^ 14" using Q(3) by simp
  ultimately have "\<bar>hq - f\<bar> \<le> 3/10 ^ 14 + 6/10 ^ 13" by (rule abs_tri[rotated])
  then have "\<bar>hq - f\<bar> \<le> 1/10 ^ 12" by simp
  note eQ = abs_leD[OF this]
  have dl0: "0 < dl" using dl by simp
  have "\<bar>f\<bar> = \<bar>of_nat Y - of_nat Z\<bar> / dl" using dl0 by (simp add: f_def)
  also have "\<dots> \<le> 1" using yz dl0 by simp
  finally have fabs: "\<bar>f\<bar> \<le> 1" .
  have c0: "0 \<le> c" "c \<le> 6" using c(1) by auto
  have hq0: "Z \<le> Y \<Longrightarrow> 0 \<le> hq"
  proof -
    assume "Z \<le> Y"
    then have "unit255 Z \<le> unit255 Y" using unit255_mono by (simp add: monoD)
    then have "0 \<le> n" unfolding n_def by (intro rnd_nonneg) simp
    then have "0 \<le> n / d" using d0 by simp
    then show "0 \<le> hq" unfolding hq_def by (rule rnd_nonneg)
  qed
  have lo: "0 \<le> hq + c"
  proof (cases "c = 0")
    case True
    then show ?thesis using hq0 c(2) by simp
  next
    case False
    then have "2 \<le> c" using c(1) by auto
    then show ?thesis using eQ(2) fabs by simp
  qed
  have fhi: "f + c \<le> 6 - 1/255"
  proof (cases "c = 6")
    case True
    then have "Y + 1 \<le> Z" using c(3) by simp
    then have "(of_nat (Y + 1) :: rat) \<le> of_nat Z" by (simp only: of_nat_le_iff)
    then have "(of_nat Y - of_nat Z :: rat) \<le> - 1" by simp
    then have "(of_nat Y - of_nat Z) / dl \<le> (- 1) / dl" using dl0 by (simp only: divide_right_mono less_imp_le)
    moreover have "1 / 255 \<le> 1 / dl" using dl dl0 by (intro frac_le) simp_all
    ultimately have "f \<le> - (1 / 255)" by (simp add: f_def)
    then show ?thesis using True by simp
  next
    case False
    then have "c \<le> 4" using c(1) by auto
    then show ?thesis using fabs by simp
  qed
  define h6 where "h6 = rnd (hq + c)"
  have "\<bar>hq + c\<bar> \<le> 2 powi 3" using eQ fabs c0 by simp
  note H6 = fin_op[OF this, folded h6_def]
  have H6f: "fin (hq + c) = Fin h6" using H6(1) by simp
  have h6abs: "\<bar>h6\<bar> \<le> 8" using H6(2) by simp
  have h60: "0 \<le> h6" unfolding h6_def using lo by (rule rnd_nonneg)
  have "\<bar>h6 - (hq + c)\<bar> \<le> 1/10 ^ 15" using H6(3) by simp
  note e6 = abs_leD[OF this]
  define hv where "hv = rnd (h6 * 60)"
  have "\<bar>h6 * 60\<bar> \<le> 2 powi 9" using h6abs by (simp add: abs_mult)
  note HV = fin_op[OF this, folded hv_def]
  have HVf: "fin (h6 * 60) = Fin hv" using HV(1) by simp
  have hv0: "0 \<le> hv" unfolding hv_def using h60 by (intro rnd_nonneg) simp
  have "\<bar>hv - h6 * 60\<bar> \<le> 6/10 ^ 14" using HV(3) by simp
  note eH = abs_leD[OF this]
  have he: "\<bar>hv - 60 * (f + c)\<bar> \<le> 1/10 ^ 10"
    by (rule abs_leI) (use eH e6 eQ in simp)+
  note he' = abs_leD[OF he]
  have hv360: "hv < 360" using he'(1) fhi by simp
  have "fmul (fadd (fdiv (fsub (Fin (unit255 Y)) (Fin (unit255 Z))) (Fin d)) (Fin c)) (Fin 60) = Fin hv"
    by (simp only: fsub_Fin Nf Qf fadd_Fin H6f fmul_Fin HVf)
  with hv0 hv360 he show ?thesis unfolding f_def by blast
qed

lemma rgbToHsl_unfold:
  assumes "R \<le> 255" "G \<le> 255" "B \<le> 255"
  shows "rgbToHsl (new_UColor (Fin (of_nat R)) (Fin (of_nat G)) (Fin (of_nat B)) al) =
    (let M = max (max R G) B; m = min (min R G) B;
         l = fdiv (fadd (Fin (unit255 M)) (Fin (unit255 m))) (Fin 2)
     in if M = m then (Fin 0, Fin 0, l)
        else (let d = fsub (Fin (unit255 M)) (Fin (unit255 m));
                  s = (if flt (Fin (1/2)) l
                       then fdiv d (fsub (fsub (Fin 2) (Fin (unit255 M))) (Fin (unit255 m)))
                       else fdiv d (fadd (Fin (unit255 M)) (Fin (unit255 m))));
                  h = (if M = R then fadd (fdiv (fsub (Fin (unit255 G)) (Fin (unit255 B))) d)
                                          (Fin (if G < B then 6 else 0))
                       else if M = G then fadd (fdiv (fsub (Fin (unit255 B)) (Fin (unit255 R))) d) (Fin 2)
                       else fadd (fdiv (fsub (Fin (unit255 R)) (Fin (unit255 G))) d) (Fin 4))
              in (fmul h (Fin 60), s, l)))"
proof -
  have M: "max (max R G) B \<le> 255" and m: "min (min R G) B \<le> 255" using assms by simp_all
  have six: "(if G < B then Fin 6 else Fin 0) = Fin (if G < B then 6 else 0)" by simp
  have last: "max (max R G) B \<noteq> R \<Longrightarrow> max (max R G) B \<noteq> G \<Longrightarrow> max (max R G) B = B"
    by (simp add: max_def split: if_splits)
  show ?thesis
    unfolding rgbToHsl_def new_UColor_def Let_def
    using last
    by (simp add: unit255_props(1)[OF assms(1)] unit255_props(1)[OF assms(2)]
        unit255_props(1)[OF assms(3)] unit255_max unit255_min
        unit255_eq_iff[OF M m] unit255_eq_iff[OF M assms(1)] unit255_eq_iff[OF M assms(2)]
        unit255_eq_iff[OF M assms(3)] unit255_less_iff[OF assms(2) assms(3)] six
        del: fadd_Fin fsub_Fin fdiv_Fin fmul_Fin)
qed


lemma rgbToHsl_chromatic:
  fixes R G B :: nat
  assumes RGB: "R \<le> 255" "G \<le> 255" "B \<le> 255"
    and chroma: "min (min R G) B < max (max R G) B"
  shows "\<exists>hv sv lv. rgbToHsl (new_UColor (Fin (of_nat R)) (Fin (of_nat G)) (Fin (of_nat B)) al)
             = (Fin hv, Fin sv, Fin lv) \<and>
           0 \<le> hv \<and> hv < 360 \<and> \<bar>hv - 60 * hue6 R G B\<bar> \<le> 1/10 ^ 10 \<and>
           1/256 \<le> sv \<and> sv \<le> 1 \<and>
           \<bar>sv - (of_nat (max (max R G) B) - of_nat (min (min R G) B)) /
                 (255 - \<bar>255 - (of_nat (max (max R G) B) + of_nat (min (min R G) B))\<bar>)\<bar> \<le> 1/10 ^ 12 \<and>
           0 \<le> lv \<and> lv \<le> 1 \<and>
           \<bar>lv - (of_nat (max (max R G) B) + of_nat (min (min R G) B)) / 510\<bar> \<le> 1/10 ^ 15"
proof -
  define M where "M = max (max R G) B"
  define m where "m = min (min R G) B"
  define dl :: rat where "dl = of_nat M - of_nat m"
  have mM: "m < M" using chroma by (simp add: M_def m_def)
  have M255: "M \<le> 255" using RGB by (simp add: M_def)
  from light_sat[OF mM M255] obtain lv sv d where
    L: "fdiv (fadd (Fin (unit255 M)) (Fin (unit255 m))) (Fin 2) = Fin lv"
    and D: "fsub (Fin (unit255 M)) (Fin (unit255 m)) = Fin d"
    and S: "(if flt (Fin (1/2)) (Fin lv)
             then fdiv (Fin d) (fsub (fsub (Fin 2) (Fin (unit255 M))) (Fin (unit255 m)))
             else fdiv (Fin d) (fadd (Fin (unit255 M)) (Fin (unit255 m)))) = Fin sv"
    and lv: "0 \<le> lv" "lv \<le> 1" "\<bar>lv - (of_nat M + of_nat m) / 510\<bar> \<le> 1/10 ^ 15"
    and d: "1/256 \<le> d" "d \<le> 1" "\<bar>d - dl / 255\<bar> \<le> 1/10 ^ 15"
    and sv: "1/256 \<le> sv" "sv \<le> 1"
       "\<bar>sv - (of_nat M - of_nat m) / (255 - \<bar>255 - (of_nat M + of_nat m)\<bar>)\<bar> \<le> 1/10 ^ 12"
    unfolding dl_def by blast
  have "m + 1 \<le> M" using mM by simp
  then have "(of_nat (m + 1) :: rat) \<le> of_nat M" by (simp only: of_nat_le_iff)
  then have dl1: "1 \<le> dl" by (simp add: dl_def)
  have "(of_nat M :: rat) \<le> of_nat 255" using M255 by (simp only: of_nat_le_iff)
  then have dl255: "dl \<le> 255" by (simp add: dl_def)
  have bnd: "(of_nat m :: rat) \<le> of_nat X \<and> (of_nat X :: rat) \<le> of_nat M"
    if "X = R \<or> X = G \<or> X = B" for X
  proof -
    have "m \<le> X \<and> X \<le> M" using that by (auto simp: M_def m_def)
    then show ?thesis by (simp only: of_nat_le_iff)
  qed
  have within: "\<bar>(of_nat Y :: rat) - of_nat Z\<bar> \<le> dl"
    if "Y = R \<or> Y = G \<or> Y = B" "Z = R \<or> Z = G \<or> Z = B" for Y Z
    using bnd[OF that(1)] bnd[OF that(2)] unfolding dl_def by linarith
  have hue: "\<exists>hv. fmul (if M = R then fadd (fdiv (fsub (Fin (unit255 G)) (Fin (unit255 B))) (Fin d))
                                          (Fin (if G < B then 6 else 0))
                       else if M = G then fadd (fdiv (fsub (Fin (unit255 B)) (Fin (unit255 R))) (Fin d)) (Fin 2)
                       else fadd (fdiv (fsub (Fin (unit255 R)) (Fin (unit255 G))) (Fin d)) (Fin 4))
                 (Fin 60) = Fin hv \<and> 0 \<le> hv \<and> hv < 360 \<and> \<bar>hv - 60 * hue6 R G B\<bar> \<le> 1/10 ^ 10"
  proof (cases "M = R")
    case True
    have h: "hue6 R G B = (of_nat G - of_nat B) / dl + (if G < B then 6 else 0)"
      using True by (simp add: hue6_def Let_def M_def[symmetric] m_def[symmetric] dl_def)
    have "\<bar>(of_nat G :: rat) - of_nat B\<bar> \<le> dl" by (rule within) simp_all
    from hue_value[OF RGB(2,3) d(3,1) dl1 dl255 this, of "if G < B then 6 else 0"]
    show ?thesis using True unfolding h by (simp del: fadd_Fin fsub_Fin fdiv_Fin fmul_Fin)
  next
    case nR: False
    show ?thesis
    proof (cases "M = G")
      case True
      have h: "hue6 R G B = (of_nat B - of_nat R) / dl + 2"
        using True nR by (simp add: hue6_def Let_def M_def[symmetric] m_def[symmetric] dl_def)
      have "\<bar>(of_nat B :: rat) - of_nat R\<bar> \<le> dl" by (rule within) simp_all
      from hue_value[OF RGB(3,1) d(3,1) dl1 dl255 this, of 2]
      show ?thesis using True nR unfolding h by (simp del: fadd_Fin fsub_Fin fdiv_Fin fmul_Fin)
    next
      case False
      have h: "hue6 R G B = (of_nat R - of_nat G) / dl + 4"
        using False nR by (simp add: hue6_def Let_def M_def[symmetric] m_def[symmetric] dl_def)
      have "\<bar>(of_nat R :: rat) - of_nat G\<bar> \<le> dl" by (rule within) simp_all
      from hue_value[OF RGB(1,2) d(3,1) dl1 dl255 this, of 4]
      show ?thesis using False nR unfolding h by (simp del: fadd_Fin fsub_Fin fdiv_Fin fmul_Fin)
    qed
  qed
  then obtain hv where hv: "fmul (if M = R then fadd (fdiv (fsub (Fin (unit255 G)) (Fin (unit255 B))) (Fin d))
                                          (Fin (if G < B then 6 else 0))
                       else if M = G then fadd (fdiv (fsub (Fin (unit255 B)) (Fin (unit255 R))) (Fin d)) (Fin 2)
                       else fadd (fdiv (fsub (Fin (unit255 R)) (Fin (unit255 G))) (Fin d)) (Fin 4))
                 (Fin 60) = Fin hv" "0 \<le> hv" "hv < 360" "\<bar>hv - 60 * hue6 R G B\<bar> \<le> 1/10 ^ 10"
    by blast
  have ne: "M \<noteq> m" using mM by simp
  have "rgbToHsl (new_UColor (Fin (of_nat R)) (Fin (of_nat G)) (Fin (of_nat B)) al)
             = (Fin hv, Fin sv, Fin lv)"
    unfolding rgbToHsl_unfold[OF RGB] Let_def M_def[symmetric] m_def[symmetric]
    by (simp only: L D S hv(1) ne if_False)
  with hv(2-4) sv lv show ?thesis unfolding M_def m_def by blast
qed

subsection \<open>Back to channels\<close>

lemma pq_approx:
  fixes M m :: nat
  assumes mM: "m < M" "M \<le> 255"
    and l: "0 \<le> lv" "lv \<le> 1" "\<bar>lv - (of_nat M + of_nat m) / 510\<bar> \<le> 1/10 ^ 15"
    and s: "1/256 \<le> sv" "sv \<le> 1"
       "\<bar>sv - (of_nat M - of_nat m) / (255 - \<bar>255 - (of_nat M + of_nat m)\<bar>)\<bar> \<le> 1/10 ^ 12"
  shows "\<exists>q p. (if flt (Fin lv) (Fin (1/2)) then fmul (Fin lv) (fadd (Fin 1) (Fin sv))
                  else fsub (fadd (Fin lv) (Fin sv)) (fmul (Fin lv) (Fin sv))) = Fin q \<and>
               fsub (fmul (Fin 2) (Fin lv)) (Fin q) = Fin p \<and>
               \<bar>q - of_nat M / 255\<bar> \<le> 1/10 ^ 11 \<and> \<bar>p - of_nat m / 255\<bar> \<le> 1/10 ^ 11"
proof -
  define sg :: rat where "sg = of_nat M + of_nat m"
  define dl :: rat where "dl = of_nat M - of_nat m"
  define l0 where "l0 = sg / 510"
  define s0 where "s0 = dl / (255 - \<bar>255 - sg\<bar>)"
  define q0 :: rat where "q0 = of_nat M / 255"
  define p0 :: rat where "p0 = of_nat m / 255"
  have "m + 1 \<le> M" using mM(1) by simp
  then have "(of_nat (m + 1) :: rat) \<le> of_nat M" by (simp only: of_nat_le_iff)
  then have dl1: "1 \<le> dl" by (simp add: dl_def)
  have "(of_nat M :: rat) \<le> of_nat 255" using mM(2) by (simp only: of_nat_le_iff)
  then have M255: "(of_nat M :: rat) \<le> 255" by simp
  have mnn: "(0::rat) \<le> of_nat m" by simp
  have sg1: "1 \<le> sg" "sg < 510" using dl1 M255 mnn by (simp_all add: sg_def dl_def)
  have sgdl: "sg + dl = 2 * of_nat M" "sg - dl = 2 * of_nat m" by (simp_all add: sg_def dl_def)
  have l0b: "\<bar>l0\<bar> \<le> 1" using sg1 by (simp add: l0_def)
  have p0q0: "2 * l0 - q0 = p0"
  proof -
    have "2 * l0 - q0 = (sg - of_nat M) / 255" by (simp add: l0_def q0_def diff_divide_distrib)
    also have "sg - of_nat M = of_nat m" by (simp add: sg_def)
    finally show ?thesis by (simp add: p0_def)
  qed
  have q0b: "0 \<le> q0" "q0 \<le> 1" using M255 by (simp_all add: q0_def)
  have le: "\<bar>lv - l0\<bar> \<le> 1/10 ^ 15" using l(3) unfolding l0_def sg_def .
  have se: "\<bar>sv - s0\<bar> \<le> 1/10 ^ 12" using s(3) unfolding s0_def dl_def sg_def .
  note le' = abs_leD[OF le]
  note se' = abs_leD[OF se]
  have qq: "\<exists>q. (if flt (Fin lv) (Fin (1/2)) then fmul (Fin lv) (fadd (Fin 1) (Fin sv))
                  else fsub (fadd (Fin lv) (Fin sv)) (fmul (Fin lv) (Fin sv))) = Fin q \<and>
               \<bar>q - q0\<bar> \<le> 6/10 ^ 12"
  proof (cases "lv < 1/2")
    case True
    have sg255: "sg \<le> 255"
    proof (rule ccontr)
      assume "\<not> sg \<le> 255"
      then have "(of_nat 255 :: rat) < of_nat (M + m)" by (simp add: sg_def)
      then have "255 < M + m" by (simp only: of_nat_less_iff)
      then have "256 \<le> M + m" by simp
      then have "(of_nat 256 :: rat) \<le> of_nat (M + m)" by (simp only: of_nat_le_iff)
      then have "256 \<le> sg" by (simp add: sg_def)
      then show False using le'(2) True by (simp add: l0_def)
    qed
    have s0e: "s0 = dl / sg" using sg255 by (simp add: s0_def)
    have "sg / 510 * (dl / sg) = dl / 510" using sg1 by simp
    then have "l0 * (1 + s0) = sg / 510 + dl / 510"
      unfolding l0_def s0e by (simp only: distrib_left mult_1_right)
    then have "l0 * (1 + s0) = (sg + dl) / 510" by (simp only: add_divide_distrib)
    then have id: "l0 * (1 + s0) = q0" by (simp add: sgdl q0_def)
    define a where "a = rnd (1 + sv)"
    have "\<bar>1 + sv\<bar> \<le> 2 powi 1" using s by simp
    note A = fin_op[OF this, folded a_def]
    have Af: "fin (1 + sv) = Fin a" using A(1) by simp
    have aabs: "\<bar>a\<bar> \<le> 2" using A(2) by simp
    have "\<bar>a - (1 + sv)\<bar> \<le> 3/10 ^ 16" using A(3) by simp
    note ea = abs_leD[OF this]
    have ae: "\<bar>a - (1 + s0)\<bar> \<le> 2/10 ^ 12"
      by (rule abs_leI) (use ea se' in simp)+
    define P where "P = lv * a"
    have "\<bar>lv * a - l0 * (1 + s0)\<bar> \<le> 1/10 ^ 15 * 2 + 1 * (2/10 ^ 12)"
      using le ae aabs l0b by (rule prod_near)
    then have "\<bar>P - q0\<bar> \<le> 1/10 ^ 15 * 2 + 1 * (2/10 ^ 12)" by (simp only: id P_def)
    then have pe: "\<bar>P - q0\<bar> \<le> 3/10 ^ 12" by simp
    note pe' = abs_leD[OF pe]
    define q where "q = rnd P"
    have "\<bar>P\<bar> \<le> 2 powi 1" using pe' q0b by (simp add: abs_le_iff)
    note Q = fin_op[OF this, folded q_def]
    have Qf: "fin (lv * a) = Fin q" using Q(1) by (simp add: P_def)
    have "\<bar>q - P\<bar> \<le> 3/10 ^ 16" using Q(3) by simp
    then have "\<bar>q - q0\<bar> \<le> 3/10 ^ 16 + 3/10 ^ 12" using pe by (rule abs_tri)
    then have "\<bar>q - q0\<bar> \<le> 6/10 ^ 12" by simp
    moreover have "(if flt (Fin lv) (Fin (1/2)) then fmul (Fin lv) (fadd (Fin 1) (Fin sv))
                  else fsub (fadd (Fin lv) (Fin sv)) (fmul (Fin lv) (Fin sv))) = Fin q"
      using True Af Qf by simp
    ultimately show ?thesis by blast
  next
    case False
    have sg255: "255 \<le> sg"
    proof (rule ccontr)
      assume "\<not> 255 \<le> sg"
      then have "of_nat (M + m) < (of_nat 255 :: rat)" by (simp add: sg_def)
      then have "M + m < 255" by (simp only: of_nat_less_iff)
      then have "M + m \<le> 254" by simp
      then have "(of_nat (M + m) :: rat) \<le> of_nat 254" by (simp only: of_nat_le_iff)
      then have "sg \<le> 254" by (simp add: sg_def)
      then show False using le'(1) False by (simp add: l0_def)
    qed
    have s0e: "s0 = dl / (510 - sg)" using sg255 by (simp add: s0_def)
    define LS0 where "LS0 = l0 * s0"
    define LS where "LS = lv * sv"
    define w where "w = 510 - sg"
    have w0: "0 < w" using sg1 by (simp add: w_def)
    have "(1 - (510 - w) / 510) = w / 510" by (simp add: diff_divide_distrib)
    then have "(1 - (510 - w) / 510) * (dl / w) = (w / 510) * (dl / w)" by (simp only:)
    also have "\<dots> = dl / 510" using w0 by simp
    finally have ww: "(1 - (510 - w) / 510) * (dl / w) = dl / 510" .
    have l0w: "l0 = (510 - w) / 510" and s0w: "s0 = dl / w" by (simp_all add: l0_def s0e w_def)
    have "(1 - l0) * s0 = dl / 510" unfolding l0w s0w by (rule ww)
    moreover have "l0 + s0 - l0 * s0 = l0 + (1 - l0) * s0" by (simp add: algebra_simps)
    ultimately have "l0 + s0 - l0 * s0 = sg / 510 + dl / 510" by (simp add: l0_def)
    then have "l0 + s0 - l0 * s0 = (sg + dl) / 510" by (simp only: add_divide_distrib)
    then have id: "l0 + s0 - LS0 = q0" by (simp add: sgdl q0_def LS0_def)
    have "\<bar>sv\<bar> \<le> 1" using s by simp
    with le se have "\<bar>lv * sv - l0 * s0\<bar> \<le> 1/10 ^ 15 * 1 + 1 * (1/10 ^ 12)"
      using l0b by (rule prod_near)
    then have "\<bar>LS - LS0\<bar> \<le> 2/10 ^ 12" by (simp add: LS_def LS0_def)
    note eP = abs_leD[OF this]
    define A where "A = rnd (lv + sv)"
    have "\<bar>lv + sv\<bar> \<le> 2 powi 1" using s l by simp
    note FA = fin_op[OF this, folded A_def]
    have FAf: "fin (lv + sv) = Fin A" using FA(1) by simp
    define Bm where "Bm = rnd LS"
    have "\<bar>LS\<bar> = \<bar>lv\<bar> * \<bar>sv\<bar>" by (simp add: LS_def abs_mult)
    also have "\<dots> \<le> 1 * 1" using s l by (intro mult_mono) simp_all
    finally have "\<bar>LS\<bar> \<le> 2 powi 0" by simp
    note FB = fin_op[OF this, folded Bm_def]
    have FBf: "fin (lv * sv) = Fin Bm" using FB(1) by (simp add: LS_def)
    define q where "q = rnd (A - Bm)"
    have "\<bar>A\<bar> \<le> 2" "\<bar>Bm\<bar> \<le> 1" using FA(2) FB(2) by simp_all
    then have "\<bar>A - Bm\<bar> \<le> 2 powi 2" by simp
    note FQ = fin_op[OF this, folded q_def]
    have FQf: "fin (A - Bm) = Fin q" using FQ(1) by simp
    have "\<bar>A - (lv + sv)\<bar> \<le> 1/10 ^ 15" using FA(3) by simp
    note e1 = abs_leD[OF this]
    have "\<bar>Bm - LS\<bar> \<le> 1/10 ^ 15" using FB(3) by simp
    note e2 = abs_leD[OF this]
    have "\<bar>q - (A - Bm)\<bar> \<le> 1/10 ^ 15" using FQ(3) by simp
    note e3 = abs_leD[OF this]
    have "\<bar>A - (l0 + s0)\<bar> \<le> 2/10 ^ 12"
      by (rule abs_leI) (use e1 le' se' in simp)+
    note eA = abs_leD[OF this]
    have "\<bar>Bm - LS0\<bar> \<le> 3/10 ^ 12"
      by (rule abs_leI) (use e2 eP in simp)+
    note eB = abs_leD[OF this]
    have "\<bar>q - (l0 + s0 - LS0)\<bar> \<le> 6/10 ^ 12"
      by (rule abs_leI) (use e3 eA eB in simp)+
    then have "\<bar>q - q0\<bar> \<le> 6/10 ^ 12" unfolding id .
    moreover have "(if flt (Fin lv) (Fin (1/2)) then fmul (Fin lv) (fadd (Fin 1) (Fin sv))
                  else fsub (fadd (Fin lv) (Fin sv)) (fmul (Fin lv) (Fin sv))) = Fin q"
      using False FAf FBf FQf by simp
    ultimately show ?thesis by blast
  qed
  then obtain q where q: "(if flt (Fin lv) (Fin (1/2)) then fmul (Fin lv) (fadd (Fin 1) (Fin sv))
                  else fsub (fadd (Fin lv) (Fin sv)) (fmul (Fin lv) (Fin sv))) = Fin q"
    "\<bar>q - q0\<bar> \<le> 6/10 ^ 12" by blast
  note qe = abs_leD[OF q(2)]
  define b where "b = rnd (2 * lv)"
  have "\<bar>2 * lv\<bar> \<le> 2 powi 1" using l by simp
  note FL = fin_op[OF this, folded b_def]
  have FLf: "fin (2 * lv) = Fin b" using FL(1) by simp
  have "\<bar>b - 2 * lv\<bar> \<le> 1/10 ^ 15" using FL(3) by simp
  note e4 = abs_leD[OF this]
  define p where "p = rnd (b - q)"
  have "\<bar>b\<bar> \<le> 2" using FL(2) by simp
  then have "\<bar>b - q\<bar> \<le> 2 powi 2" using qe q0b by (simp add: abs_le_iff)
  note FP = fin_op[OF this, folded p_def]
  have FPf: "fin (b - q) = Fin p" using FP(1) by simp
  have "\<bar>p - (b - q)\<bar> \<le> 1/10 ^ 15" using FP(3) by simp
  note e5 = abs_leD[OF this]
  have "\<bar>b - 2 * l0\<bar> \<le> 1/10 ^ 14"
    by (rule abs_leI) (use e4 le' in simp)+
  note eb = abs_leD[OF this]
  have "\<bar>p - (2 * l0 - q0)\<bar> \<le> 1/10 ^ 11"
    by (rule abs_leI) (use e5 eb qe in simp)+
  then have pe: "\<bar>p - p0\<bar> \<le> 1/10 ^ 11" unfolding p0q0 .
  have "fsub (fmul (Fin 2) (Fin lv)) (Fin q) = Fin p" using FLf FPf by simp
  moreover have "\<bar>q - q0\<bar> \<le> 1/10 ^ 11" using q(2) by simp
  ultimately show ?thesis using q(1) pe unfolding q0_def p0_def by blast
qed

lemma channel_exact:
  fixes k :: int
  assumes "\<bar>v - of_int k / 255\<bar> \<le> 1/10 ^ 6" "0 \<le> k" "k \<le> 255"
  shows "Math_round (fmul (Fin v) (Fin 255)) = Fin (of_int k)"
proof -
  have "(of_int 0 :: rat) \<le> of_int k" "(of_int k :: rat) \<le> of_int 255"
    using assms(2,3) by (simp_all only: of_int_le_iff)
  then have k: "(0::rat) \<le> of_int k" "(of_int k :: rat) \<le> 255" by simp_all
  define K :: rat where "K = of_int k"
  note a = abs_leD[OF assms(1), folded K_def]
  note k' = k[folded K_def]
  have b: "\<bar>v * 255\<bar> \<le> 2 powi 9" using a k' by (simp add: abs_le_iff)
  have f: "fin (v * 255) = Fin (rnd (v * 255))" using b by (rule fin_Fin) simp_all
  have e: "\<bar>rnd (v * 255) - v * 255\<bar> \<le> 2 powi (9 - 53)" using b by (rule rnd_abs_err) simp
  note e' = abs_leD[OF e]
  define X where "X = rnd (v * 255)"
  define V where "V = v * 255"
  have "V \<le> K + 255/10 ^ 6" "K - 255/10 ^ 6 \<le> V" using a by (simp_all add: V_def)
  moreover have "X \<le> V + 1/10 ^ 6" "V - 1/10 ^ 6 \<le> X" using e' by (simp_all add: V_def X_def)
  ultimately have "- (1/2) < X - K \<and> X - K < 1/2" by simp
  then have "\<bar>rnd (v * 255) - K\<bar> < 1/2" unfolding X_def by (simp only: abs_less_iff) simp
  then have "\<bar>rnd (v * 255) - of_int k\<bar> < 1/2" by (simp add: K_def)
  then have "\<lfloor>rnd (v * 255) + 1/2\<rfloor> = k" by (rule round_near)
  then show ?thesis using f by simp
qed

lemma hue_shift:
  assumes hv: "0 \<le> hv" "hv < 360" and K: "0 \<le> K" "K \<le> 360"
  shows "\<exists>hh (n::int). fmod (fadd (Fin hv) (Fin K)) (Fin 360) = Fin hh \<and> 0 \<le> hh \<and> hh < 360 \<and>
           \<bar>hh - (hv + K - 360 * of_int n)\<bar> \<le> 1/10 ^ 12 \<and>
           hh = rnd (hv + K) - 360 * of_int \<lfloor>rnd (hv + K) / 360\<rfloor>"
proof -
  define x where "x = rnd (hv + K)"
  have "\<bar>hv + K\<bar> \<le> 2 powi 10" using hv K by simp
  note X = fin_op[OF this, folded x_def]
  have Xf: "fin (hv + K) = Fin x" using X(1) by simp
  have x0: "0 \<le> x" unfolding x_def using hv K by (intro rnd_nonneg) simp
  have xe: "\<bar>x - (hv + K)\<bar> \<le> 1/10 ^ 12" using X(3) by simp
  define n where "n = \<lfloor>x / 360\<rfloor>"
  define N :: rat where "N = of_int n"
  define hh where "hh = x - 360 * N"
  have "of_int \<lfloor>x / 360\<rfloor> \<le> x / 360" "x / 360 < of_int \<lfloor>x / 360\<rfloor> + 1"
    by (rule of_int_floor_le, rule floor_correct[THEN conjunct2, simplified])
  then have fl: "N \<le> x / 360" "x / 360 < N + 1" by (simp_all add: N_def n_def)
  have h0: "0 \<le> hh" "hh < 360" using fl by (simp_all add: hh_def)
  have "fmod (Fin x) (Fin 360) = Fin hh" using x0 by (simp add: fmod_def hh_def N_def n_def)
  then have "fmod (fadd (Fin hv) (Fin K)) (Fin 360) = Fin hh" using Xf by simp
  moreover have "hh - (hv + K - 360 * of_int n) = x - (hv + K)" by (simp add: hh_def N_def)
  then have "\<bar>hh - (hv + K - 360 * of_int n)\<bar> \<le> 1/10 ^ 12" using xe by (simp only:)
  moreover have "hh = rnd (hv + K) - 360 * of_int \<lfloor>rnd (hv + K) / 360\<rfloor>"
    by (simp add: hh_def N_def n_def x_def)
  ultimately show ?thesis using h0 by blast
qed

lemma turn_offsets:
  assumes "0 \<le> hh" "hh < 360"
  shows "\<exists>tr tg tb. fadd (fdiv (Fin hh) (Fin 360)) (fdiv (Fin 1) (Fin 3)) = Fin tr \<and>
           fdiv (Fin hh) (Fin 360) = Fin tg \<and>
           fsub (fdiv (Fin hh) (Fin 360)) (fdiv (Fin 1) (Fin 3)) = Fin tb \<and>
           - 1 \<le> tr \<and> tr \<le> 2 \<and> - 1 \<le> tg \<and> tg \<le> 2 \<and> - 1 \<le> tb \<and> tb \<le> 2 \<and>
           \<bar>tr - (hh / 360 + 1/3)\<bar> \<le> 1/10 ^ 15 \<and> \<bar>tg - hh / 360\<bar> \<le> 1/10 ^ 15 \<and>
           \<bar>tb - (hh / 360 - 1/3)\<bar> \<le> 1/10 ^ 15"
proof -
  define c :: rat where "c = 6004799503160661 / 18014398509481984"
  define H where "H = hh / 360"
  have c: "fdiv (Fin 1) (Fin 3) = Fin c" using fin_third by (simp add: c_def)
  have ce: "c \<le> 1/3" "1/3 - 1/10 ^ 16 \<le> c" "0 \<le> c" by (simp_all add: c_def)
  define tg where "tg = rnd H"
  have H: "0 \<le> H" "H \<le> 1" using assms by (simp_all add: H_def)
  note G = rnd_unit[OF H, folded tg_def]
  have Gf: "fdiv (Fin hh) (Fin 360) = Fin tg" using G(1) by (simp add: H_def)
  have "\<bar>H\<bar> \<le> 2 powi 0" using H by simp
  then have "\<bar>rnd H - H\<bar> \<le> 2 powi (0 - 53)" by (rule rnd_abs_err) simp
  then have ge: "\<bar>tg - H\<bar> \<le> 2/10 ^ 16" by (simp add: tg_def)
  note ge' = abs_leD[OF ge]
  define tr where "tr = rnd (tg + c)"
  have "\<bar>tg + c\<bar> \<le> 2 powi 1" using G(2,3) ce by simp
  note R = fin_op[OF this, folded tr_def]
  have Rf: "fin (tg + c) = Fin tr" using R(1) by simp
  have r0: "0 \<le> tr" unfolding tr_def using G(2) ce by (intro rnd_nonneg) simp
  have r2: "tr \<le> 2" using R(2) by simp
  have "\<bar>tr - (tg + c)\<bar> \<le> 3/10 ^ 16" using R(3) by simp
  note re = abs_leD[OF this]
  have re': "\<bar>tr - (H + 1/3)\<bar> \<le> 1/10 ^ 15"
    by (rule abs_leI) (use re ge' ce in simp)+
  define tb where "tb = rnd (tg - c)"
  have "\<bar>tg - c\<bar> \<le> 2 powi 0" using G(2,3) ce by simp
  note B = fin_op[OF this, folded tb_def]
  have Bf: "fin (tg - c) = Fin tb" using B(1) by simp
  have babs: "\<bar>tb\<bar> \<le> 1" using B(2) by simp
  have "\<bar>tb - (tg - c)\<bar> \<le> 2/10 ^ 16" using B(3) by simp
  note be = abs_leD[OF this]
  have be': "\<bar>tb - (H - 1/3)\<bar> \<le> 1/10 ^ 15"
    by (rule abs_leI) (use be ge' ce in simp)+
  have "fadd (fdiv (Fin hh) (Fin 360)) (fdiv (Fin 1) (Fin 3)) = Fin tr" using Rf by (simp only: Gf c fadd_Fin)
  moreover have "fsub (fdiv (Fin hh) (Fin 360)) (fdiv (Fin 1) (Fin 3)) = Fin tb" using Bf by (simp only: Gf c fsub_Fin)
  moreover have "\<bar>tg - H\<bar> \<le> 1/10 ^ 15" using ge by simp
  moreover have "- 1 \<le> tr" "- 1 \<le> tg" "tg \<le> 2" "- 1 \<le> tb" "tb \<le> 2"
    using r0 G(2,3) babs by simp_all
  ultimately show ?thesis using Gf r2 re' be' unfolding H_def by blast
qed

lemma channel_approx:
  fixes k :: int
  assumes q: "\<bar>q - q0\<bar> \<le> 1/10 ^ 11" and p: "\<bar>p - p0\<bar> \<le> 1/10 ^ 11"
    and pq0: "0 \<le> p0" "p0 \<le> q0" "q0 \<le> 1"
    and t: "- 1 \<le> t" "t \<le> 2" "\<bar>t - (tau + of_int n)\<bar> \<le> 1/10 ^ 11"
    and k: "of_int k / 255 = p0 + (q0 - p0) * trap tau" "0 \<le> k" "k \<le> 255"
  shows "Math_round (fmul (hueToRgb (Fin p) (Fin q) (Fin t)) (Fin 255)) = Fin (of_int k)"
proof -
  note q' = abs_leD[OF q]
  note p' = abs_leD[OF p]
  have pr: "- (1/2000) \<le> p" "p \<le> 1 + 1/2000" using p' pq0 by simp_all
  have qr: "- (1/2000) \<le> q" "q \<le> 1 + 1/2000" using q' pq0 by simp_all
  define W where "W = (q - p) * trap t"
  define W0 where "W0 = (q0 - p0) * trap tau"
  from hueToRgb_approx[OF pr qr t(1,2)] obtain v where
    v: "hueToRgb (Fin p) (Fin q) (Fin t) = Fin v" "\<bar>v - (p + W)\<bar> \<le> 1/10 ^ 12"
    unfolding W_def by blast
  note v' = abs_leD[OF v(2)]
  have "\<bar>trap t - trap (tau + of_int n)\<bar> \<le> 6 * (1/10 ^ 11)" using t(3) by (rule trap_near)
  then have te: "\<bar>trap t - trap tau\<bar> \<le> 6 * (1/10 ^ 11)" by (simp only: trap_shift)
  have ke: "\<bar>(q - p) - (q0 - p0)\<bar> \<le> 2/10 ^ 11"
    by (rule abs_leI) (use q' p' in simp)+
  have tabs: "\<bar>trap t\<bar> \<le> 1" using trap_range[of t] by simp
  have kabs: "\<bar>q0 - p0\<bar> \<le> 1" using pq0 by simp
  have "\<bar>(q - p) * trap t - (q0 - p0) * trap tau\<bar> \<le> 2/10 ^ 11 * 1 + 1 * (6 * (1/10 ^ 11))"
    using ke te tabs kabs by (rule prod_near)
  then have "\<bar>W - W0\<bar> \<le> 8/10 ^ 11" by (simp add: W_def W0_def)
  note w' = abs_leD[OF this]
  have "\<bar>v - (p0 + W0)\<bar> \<le> 1/10 ^ 6"
    by (rule abs_leI) (use v' w' p' in simp)+
  then have "\<bar>v - of_int k / 255\<bar> \<le> 1/10 ^ 6" by (simp only: k(1) W0_def)
  from channel_exact[OF this k(2,3)] show ?thesis by (simp only: v(1))
qed

subsection \<open>Exact values on the wheel\<close>

lemma hexagon:
  fixes M m Y Z f :: rat
  assumes "m < M" "f * (M - m) = Y - Z" "m = min Y Z" "Y \<le> M" "Z \<le> M"
  shows "m + (M - m) * trap (f / 6) = Y"
    and "m + (M - m) * trap (f / 6 + 1/6) = M + m - Z"
    and "m + (M - m) * trap (f / 6 + 1/3) = M"
    and "m + (M - m) * trap (f / 6 + 1/2) = M + m - Y"
    and "m + (M - m) * trap (f / 6 + 2/3) = Z"
    and "m + (M - m) * trap (f / 6 + 5/6) = m"
proof -
  note c = complement_identity[OF assms]
  show "m + (M - m) * trap (f / 6 + 1/6) = M + m - Z" by (rule c(3))
  show "m + (M - m) * trap (f / 6 + 1/2) = M + m - Y" by (rule c(2))
  show "m + (M - m) * trap (f / 6 + 5/6) = m" by (rule c(1))
  have d: "0 < M - m" using assms(1) by simp
  have fd: "f * (M - m) = Y - Z" by (rule assms(2))
  have "\<bar>f * (M - m)\<bar> \<le> 1 * (M - m)" using assms by (simp add: min_def split: if_splits)
  then have "\<bar>f\<bar> * (M - m) \<le> 1 * (M - m)" using d by (simp add: abs_mult)
  then have "\<bar>f\<bar> \<le> 1" using d by (simp only: mult_le_cancel_right_pos)
  then have f: "- 1 \<le> f" "f \<le> 1" by simp_all
  have "trap (f / 6 + 1/3) = 1" using f by (intro trap_top) simp_all
  then show "m + (M - m) * trap (f / 6 + 1/3) = M" by simp
  show "m + (M - m) * trap (f / 6) = Y"
  proof (cases "0 \<le> f")
    case True
    then have "0 \<le> f * (M - m)" using d by simp
    then have z: "m = Z" using assms(2,3) by (simp add: min_def)
    have "trap (f / 6) = 6 * (f / 6)" using f True by (intro trap_rise) simp_all
    also have "\<dots> = f" by simp
    finally have tr: "trap (f / 6) = f" .
    have "m + (M - m) * trap (f / 6) = m + f * (M - m)" by (simp only: tr mult.commute)
    also have "\<dots> = m + (Y - Z)" by (simp only: fd)
    also have "\<dots> = Y" using z by simp
    finally show ?thesis .
  next
    case False
    then have "f * (M - m) < 0" using d by (simp add: mult_less_0_iff)
    then have y: "m = Y" using assms(2,3) by (simp add: min_def)
    have "trap (f / 6 + 1) = 0" using f False by (intro trap_bottom) simp_all
    then have "trap (f / 6) = 0" by (simp only: trap_next)
    then show ?thesis using y by simp
  qed
  show "m + (M - m) * trap (f / 6 + 2/3) = Z"
  proof (cases "0 < f")
    case True
    then have "0 < f * (M - m)" using d by simp
    then have z: "m = Z" using assms(2,3) by (simp add: min_def)
    have "trap (f / 6 + 2/3) = 0" using f True by (intro trap_bottom) simp_all
    then show ?thesis using z by simp
  next
    case False
    then have "f * (M - m) \<le> 0" using d by (simp add: mult_le_0_iff)
    then have y: "m = Y" using assms(2,3) by (simp add: min_def)
    have "trap (f / 6 + 2/3) = 4 - 6 * (f / 6 + 2/3)" using f False by (intro trap_fall) simp_all
    also have "\<dots> = - f" by simp
    finally have tr: "trap (f / 6 + 2/3) = - f" .
    have "m + (M - m) * trap (f / 6 + 2/3) = m + (M - m) * (- f)" by (simp only: tr)
    also have "\<dots> = m - f * (M - m)" by (simp add: algebra_simps)
    also have "\<dots> = m - (Y - Z)" by (simp only: fd)
    also have "\<dots> = Z" using y by simp
    finally show ?thesis .
  qed
qed

lemma mod6_cases:
  fixes i :: int
  assumes "0 \<le> i" "i < 6"
  shows "i = 0 \<or> i = 1 \<or> i = 2 \<or> i = 3 \<or> i = 4 \<or> i = 5"
  using assms by arith

lemma wheel_range:
  assumes "R \<le> 255" "G \<le> 255" "B \<le> 255"
  shows "0 \<le> wheel R G B j" "wheel R G B j \<le> 255"
proof -
  define M where "M = max (max R G) B"
  define m where "m = min (min R G) B"
  have i: "0 \<le> j mod 6" "j mod 6 < 6" by simp_all
  have b: "m \<le> R" "m \<le> G" "m \<le> B" "R \<le> M" "G \<le> M" "B \<le> M" "M \<le> 255"
    using assms by (simp_all add: M_def m_def)
  have w: "wheel R G B j =
      [int G, int M + int m - int B, int R, int M + int m - int G, int B, int M + int m - int R]
        ! nat (j mod 6)"
    by (simp add: wheel_def Let_def M_def m_def)
  from mod6_cases[OF i] show "0 \<le> wheel R G B j"
    unfolding w using b by (elim disjE) simp_all
  from mod6_cases[OF i] show "wheel R G B j \<le> 255"
    unfolding w using b by (elim disjE) simp_all
qed

lemma sector:
  fixes Mq mq Yq Zq :: rat and c i :: int
  assumes "mq < Mq" "mq = min Yq Zq" "Yq \<le> Mq" "Zq \<le> Mq"
  shows "mq + (Mq - mq) * trap (((Yq - Zq) / (Mq - mq) + of_int c) / 6 + of_int i / 6)
           = [Yq, Mq + mq - Zq, Mq, Mq + mq - Yq, Zq, mq] ! nat ((c + i) mod 6)"
proof -
  define f where "f = (Yq - Zq) / (Mq - mq)"
  define k where "k = (c + i) mod 6"
  define n where "n = (c + i) div 6"
  have "f * (Mq - mq) = Yq - Zq" using assms(1) by (simp add: f_def)
  note hex = hexagon[OF assms(1) this assms(2-4)]
  have k: "0 \<le> k" "k < 6" by (simp_all add: k_def)
  have "c + i = 6 * n + k" by (simp add: k_def n_def)
  then have "(of_int (c + i) :: rat) = of_int (6 * n + k)" by (simp only:)
  then have e: "(of_int c + of_int i :: rat) = 6 * of_int n + of_int k" by simp
  have "(f + of_int c) / 6 + of_int i / 6 = (f + (of_int c + of_int i)) / 6"
    by (simp add: add_divide_distrib)
  also have "\<dots> = (f + (6 * of_int n + of_int k)) / 6" by (simp only: e)
  also have "\<dots> = (f / 6 + of_int k / 6) + of_int n" by (simp add: add_divide_distrib)
  finally have "(f + of_int c) / 6 + of_int i / 6 = (f / 6 + of_int k / 6) + of_int n" .
  then have "trap ((f + of_int c) / 6 + of_int i / 6) = trap (f / 6 + of_int k / 6)"
    by (simp only: trap_shift)
  moreover have "mq + (Mq - mq) * trap (f / 6 + of_int k / 6)
           = [Yq, Mq + mq - Zq, Mq, Mq + mq - Yq, Zq, mq] ! nat k"
    using mod6_cases[OF k] hex by (elim disjE) simp_all
  ultimately show ?thesis unfolding f_def k_def by (simp only:)
qed

lemma wheel_trap:
  fixes R G B :: nat and j :: int
  assumes chroma: "min (min R G) B < max (max R G) B"
  shows "of_nat (min (min R G) B) + (of_nat (max (max R G) B) - of_nat (min (min R G) B)) *
           trap (hue6 R G B / 6 + of_int j / 6) = (of_int (wheel R G B j) :: rat)"
proof -
  define M where "M = max (max R G) B"
  define m where "m = min (min R G) B"
  define Mq :: rat where "Mq = of_nat M"
  define mq :: rat where "mq = of_nat m"
  define Rq :: rat where "Rq = of_nat R"
  define Gq :: rat where "Gq = of_nat G"
  define Bq :: rat where "Bq = of_nat B"
  define i where "i = j mod 6"
  have mM: "m < M" using chroma by (simp add: M_def m_def)
  then have lt: "mq < Mq" unfolding mq_def Mq_def by (simp only: of_nat_less_iff)
  have nb: "R \<le> M" "G \<le> M" "B \<le> M" by (simp_all add: M_def)
  have le: "Rq \<le> Mq" "Gq \<le> Mq" "Bq \<le> Mq"
    unfolding Rq_def Gq_def Bq_def Mq_def using nb by (simp_all only: of_nat_le_iff)
  have i: "0 \<le> i" "i < 6" by (simp_all add: i_def)
  have w: "(of_int (wheel R G B j) :: rat) =
      [Gq, Mq + mq - Bq, Rq, Mq + mq - Gq, Bq, Mq + mq - Rq] ! nat i"
    using mod6_cases[OF i]
    by (elim disjE)
       (simp_all add: wheel_def Let_def M_def m_def Mq_def mq_def Rq_def Gq_def Bq_def i_def)
  have md: "(c + j) mod 6 = (c + i) mod 6" for c by (simp add: i_def mod_add_right_eq)
  have "mq + (Mq - mq) * trap (hue6 R G B / 6 + of_int j / 6) =
      [Gq, Mq + mq - Bq, Rq, Mq + mq - Gq, Bq, Mq + mq - Rq] ! nat i"
  proof (cases "M = R")
    case True
    have MR: "Mq = Rq" using True by (simp add: Mq_def Rq_def)
    have "m = min G B" using True mM by (auto simp: M_def m_def min_def max_def split: if_splits)
    then have mn: "mq = min Gq Bq" by (simp add: mq_def Gq_def Bq_def of_nat_min)
    define c :: int where "c = (if G < B then 6 else 0)"
    have h: "hue6 R G B = (Gq - Bq) / (Mq - mq) + of_int c"
      using True
      by (simp add: hue6_def Let_def M_def[symmetric] m_def[symmetric] Mq_def mq_def Gq_def Bq_def c_def)
    have c: "c = 0 \<or> c = 6" by (simp add: c_def)
    have "[Gq, Mq + mq - Bq, Mq, Mq + mq - Gq, Bq, mq] ! nat ((c + i) mod 6) =
        [Gq, Mq + mq - Bq, Rq, Mq + mq - Gq, Bq, Mq + mq - Rq] ! nat i"
      using mod6_cases[OF i] c MR by (elim disjE) simp_all
    with sector[OF lt mn le(2,3), of c j] show ?thesis unfolding h md by (simp only:)
  next
    case nR: False
    show ?thesis
    proof (cases "M = G")
      case True
      have MG: "Mq = Gq" using True by (simp add: Mq_def Gq_def)
      have "m = min B R" using True mM by (auto simp: M_def m_def min_def max_def split: if_splits)
      then have mn: "mq = min Bq Rq" by (simp add: mq_def Rq_def Bq_def of_nat_min)
      have h: "hue6 R G B = (Bq - Rq) / (Mq - mq) + of_int 2"
        using True nR
        by (simp add: hue6_def Let_def M_def[symmetric] m_def[symmetric] Mq_def mq_def Rq_def Bq_def)
      have "[Bq, Mq + mq - Rq, Mq, Mq + mq - Bq, Rq, mq] ! nat ((2 + i) mod 6) =
          [Gq, Mq + mq - Bq, Rq, Mq + mq - Gq, Bq, Mq + mq - Rq] ! nat i"
        using mod6_cases[OF i] MG by (elim disjE) simp_all
      with sector[OF lt mn le(3,1), of 2 j] show ?thesis unfolding h md by (simp only:)
    next
      case False
      have "M = B" using False nR by (auto simp: M_def max_def split: if_splits)
      then have MB: "Mq = Bq" by (simp add: Mq_def Bq_def)
      have "m = min R G" using \<open>M = B\<close> mM by (auto simp: M_def m_def min_def max_def split: if_splits)
      then have mn: "mq = min Rq Gq" by (simp add: mq_def Rq_def Gq_def of_nat_min)
      have h: "hue6 R G B = (Rq - Gq) / (Mq - mq) + of_int 4"
        using False nR
        by (simp add: hue6_def Let_def M_def[symmetric] m_def[symmetric] Mq_def mq_def Rq_def Gq_def)
      have "[Rq, Mq + mq - Gq, Mq, Mq + mq - Rq, Gq, mq] ! nat ((4 + i) mod 6) =
          [Gq, Mq + mq - Bq, Rq, Mq + mq - Gq, Bq, Mq + mq - Rq] ! nat i"
        using mod6_cases[OF i] MB by (elim disjE) simp_all
      with sector[OF lt mn le(1,2), of 4 j] show ?thesis unfolding h md by (simp only:)
    qed
  qed
  then show ?thesis unfolding w Mq_def mq_def M_def m_def .
qed

lemma rgbToHsl_gray:
  fixes n :: nat
  assumes "n \<le> 255"
  shows "rgbToHsl (new_UColor (Fin (of_nat n)) (Fin (of_nat n)) (Fin (of_nat n)) al)
           = (Fin 0, Fin 0, fin (of_nat n / 255))"
proof -
  define x where "x = rnd (rat_of_nat n / 255)"
  note g = gray_unit[OF assms, folded x_def]
  have "\<bar>2 * x\<bar> \<le> 2 powi 1" using g(2,3) by simp
  then have "fin (2 * x) = Fin (rnd (2 * x))" by (rule fin_Fin) simp_all
  then have s: "fin (2 * x) = Fin (2 * x)" using rnd_rep_double[OF g(5)] by simp
  have "\<bar>x\<bar> \<le> 2 powi 0" using g(2,3) by simp
  then have "fin x = Fin (rnd x)" by (rule fin_Fin) simp_all
  then have h: "fin x = Fin x" using g(5) by simp
  show ?thesis by (simp add: rgbToHsl_def new_UColor_def g(1) s h Let_def)
qed

lemma hslToRgb_gray:
  fixes n :: nat
  assumes "n \<le> 255"
  shows "hslToRgb h (Fin 0) (fin (of_nat n / 255))
           = (Fin (of_nat n), Fin (of_nat n), Fin (of_nat n))"
  using round_back[OF assms] by (simp add: hslToRgb_def)

lemma shifted_hsl:
  fixes R G B :: nat and kk :: int
  assumes RGB: "R \<le> 255" "G \<le> 255" "B \<le> 255"
    and chroma: "min (min R G) B < max (max R G) B"
    and kk: "0 \<le> kk" "kk \<le> 6"
  shows "\<exists>hv sv lv hh. rgbToHsl (new_UColor (Fin (of_nat R)) (Fin (of_nat G)) (Fin (of_nat B)) al)
             = (Fin hv, Fin sv, Fin lv) \<and> 0 \<le> hv \<and> hv < 360 \<and>
           fmod (fadd (Fin hv) (Fin (60 * of_int kk))) (Fin 360) = Fin hh \<and> 0 \<le> hh \<and> hh < 360 \<and>
           hh = rnd (hv + 60 * of_int kk) - 360 * of_int \<lfloor>rnd (hv + 60 * of_int kk) / 360\<rfloor> \<and>
           hslToRgb (Fin hh) (Fin sv) (Fin lv) =
             (Fin (of_int (wheel R G B (kk + 2))), Fin (of_int (wheel R G B kk)),
              Fin (of_int (wheel R G B (kk - 2))))"
proof -
  define M where "M = max (max R G) B"
  define m where "m = min (min R G) B"
  define Mq :: rat where "Mq = of_nat M"
  define mq :: rat where "mq = of_nat m"
  define q0 where "q0 = Mq / 255"
  define p0 where "p0 = mq / 255"
  define h6 where "h6 = hue6 R G B"
  define KK :: rat where "KK = of_int kk"
  define tau where "tau = h6 / 6 + KK / 6"
  have mM: "m < M" using chroma by (simp add: M_def m_def)
  have M255: "M \<le> 255" using RGB by (simp add: M_def)
  from rgbToHsl_chromatic[OF RGB chroma, of al] obtain hv sv lv where
    hsl: "rgbToHsl (new_UColor (Fin (of_nat R)) (Fin (of_nat G)) (Fin (of_nat B)) al)
             = (Fin hv, Fin sv, Fin lv)"
    and hv: "0 \<le> hv" "hv < 360" "\<bar>hv - 60 * h6\<bar> \<le> 1/10 ^ 10"
    and sv: "1/256 \<le> sv" "sv \<le> 1"
       "\<bar>sv - (of_nat M - of_nat m) / (255 - \<bar>255 - (of_nat M + of_nat m)\<bar>)\<bar> \<le> 1/10 ^ 12"
    and lv: "0 \<le> lv" "lv \<le> 1" "\<bar>lv - (of_nat M + of_nat m) / 510\<bar> \<le> 1/10 ^ 15"
    unfolding M_def m_def h6_def by blast
  from pq_approx[OF mM M255 lv sv] obtain q p where
    q: "(if flt (Fin lv) (Fin (1/2)) then fmul (Fin lv) (fadd (Fin 1) (Fin sv))
         else fsub (fadd (Fin lv) (Fin sv)) (fmul (Fin lv) (Fin sv))) = Fin q"
    and p: "fsub (fmul (Fin 2) (Fin lv)) (Fin q) = Fin p"
    and qe: "\<bar>q - q0\<bar> \<le> 1/10 ^ 11" and pe: "\<bar>p - p0\<bar> \<le> 1/10 ^ 11"
    unfolding q0_def p0_def Mq_def mq_def by blast
  have "(of_nat m :: rat) \<le> of_nat M" "(of_nat M :: rat) \<le> of_nat 255"
    using mM M255 by (simp_all only: of_nat_le_iff less_imp_le)
  then have pq0: "0 \<le> p0" "p0 \<le> q0" "q0 \<le> 1"
    by (simp_all add: p0_def q0_def Mq_def mq_def divide_right_mono)
  have K: "0 \<le> 60 * KK" "60 * KK \<le> 360"
  proof -
    have "(of_int 0 :: rat) \<le> of_int kk" "(of_int kk :: rat) \<le> of_int 6"
      using kk by (simp_all only: of_int_le_iff)
    then show "0 \<le> 60 * KK" "60 * KK \<le> 360" by (simp_all add: KK_def)
  qed
  from hue_shift[OF hv(1,2) K] obtain hh n where
    hh: "fmod (fadd (Fin hv) (Fin (60 * KK))) (Fin 360) = Fin hh" "0 \<le> hh" "hh < 360"
      "\<bar>hh - (hv + 60 * KK - 360 * of_int n)\<bar> \<le> 1/10 ^ 12"
      "hh = rnd (hv + 60 * KK) - 360 * of_int \<lfloor>rnd (hv + 60 * KK) / 360\<rfloor>" by blast
  define N :: rat where "N = of_int n"
  from turn_offsets[OF hh(2,3)] obtain tr tg tb where
    t: "fadd (fdiv (Fin hh) (Fin 360)) (fdiv (Fin 1) (Fin 3)) = Fin tr"
       "fdiv (Fin hh) (Fin 360) = Fin tg"
       "fsub (fdiv (Fin hh) (Fin 360)) (fdiv (Fin 1) (Fin 3)) = Fin tb"
    and trr: "- 1 \<le> tr" "tr \<le> 2" and tgr: "- 1 \<le> tg" "tg \<le> 2" and tbr: "- 1 \<le> tb" "tb \<le> 2"
    and tre: "\<bar>tr - (hh / 360 + 1/3)\<bar> \<le> 1/10 ^ 15" and tge: "\<bar>tg - hh / 360\<bar> \<le> 1/10 ^ 15"
    and tbe: "\<bar>tb - (hh / 360 - 1/3)\<bar> \<le> 1/10 ^ 15"
    by blast
  note t' = t(1)[unfolded t(2)] t(3)[unfolded t(2)]
  note a1 = abs_leD[OF hh(4)[folded N_def]]
  note a2 = abs_leD[OF hv(3)]
  have hhe: "\<bar>hh / 360 - (tau - N)\<bar> \<le> 1/10 ^ 12"
    unfolding tau_def by (rule abs_leI) (use a1 a2 in simp)+
  note a3 = abs_leD[OF hhe]
  have negN: "of_int (- n) = - N" by (simp add: N_def)
  have tr1: "\<bar>tr - ((tau + 1/3) + of_int (- n))\<bar> \<le> 1/10 ^ 11"
    unfolding negN by (rule abs_leI) (use a3 abs_leD[OF tre] in simp)+
  have tg1: "\<bar>tg - (tau + of_int (- n))\<bar> \<le> 1/10 ^ 11"
    unfolding negN by (rule abs_leI) (use a3 abs_leD[OF tge] in simp)+
  have tb1: "\<bar>tb - ((tau - 1/3) + of_int (- n))\<bar> \<le> 1/10 ^ 11"
    unfolding negN by (rule abs_leI) (use a3 abs_leD[OF tbe] in simp)+
  have val: "of_int (wheel R G B j) / 255 = p0 + (q0 - p0) * trap (h6 / 6 + of_int j / 6)" for j
  proof -
    have "p0 + (q0 - p0) * trap (h6 / 6 + of_int j / 6)
        = (mq + (Mq - mq) * trap (h6 / 6 + of_int j / 6)) / 255"
      by (simp add: p0_def q0_def add_divide_distrib diff_divide_distrib algebra_simps)
    also have "mq + (Mq - mq) * trap (h6 / 6 + of_int j / 6) = of_int (wheel R G B j)"
      unfolding mq_def Mq_def m_def M_def h6_def by (rule wheel_trap[OF chroma])
    finally show ?thesis by simp
  qed
  have kr: "of_int (wheel R G B (kk + 2)) / 255 = p0 + (q0 - p0) * trap (tau + 1/3)"
  proof -
    have "tau + 1/3 = h6 / 6 + of_int (kk + 2) / 6" by (simp add: tau_def KK_def add_divide_distrib)
    then show ?thesis by (simp only: val)
  qed
  have kg: "of_int (wheel R G B kk) / 255 = p0 + (q0 - p0) * trap tau"
    by (simp only: val tau_def KK_def)
  have kb: "of_int (wheel R G B (kk - 2)) / 255 = p0 + (q0 - p0) * trap (tau - 1/3)"
  proof -
    have "tau - 1/3 = h6 / 6 + of_int (kk - 2) / 6" by (simp add: tau_def KK_def diff_divide_distrib)
    then show ?thesis by (simp only: val)
  qed
  note wr = wheel_range[OF RGB]
  note cr = channel_approx[OF qe pe pq0 trr tr1 kr wr]
  note cg = channel_approx[OF qe pe pq0 tgr tg1 kg wr]
  note cb = channel_approx[OF qe pe pq0 tbr tb1 kb wr]
  have ns: "sv \<noteq> 0" using sv(1) by simp
  have "hslToRgb (Fin hh) (Fin sv) (Fin lv) =
             (Fin (of_int (wheel R G B (kk + 2))), Fin (of_int (wheel R G B kk)),
              Fin (of_int (wheel R G B (kk - 2))))"
    unfolding hslToRgb_def Let_def
    by (simp only: q p t(2) t' cr cg cb feq_Fin ns if_False case_prod_conv)
  with hsl hv(1,2) hh(1,2,3,5) show ?thesis unfolding KK_def by blast
qed

lemma wheel_odd:
  assumes "R \<le> max (max R G) B" "G \<le> max (max R G) B" "B \<le> max (max R G) B"
  shows "(of_int (wheel R G B 5) :: rat) = of_nat (max (max R G) B + min (min R G) B - R)"
    "(of_int (wheel R G B 3) :: rat) = of_nat (max (max R G) B + min (min R G) B - G)"
    "(of_int (wheel R G B 1) :: rat) = of_nat (max (max R G) B + min (min R G) B - B)"
  using assms by (simp_all add: wheel_def Let_def of_nat_diff)

lemma wheel_even:
  "wheel R G B 0 = int G" "wheel R G B 2 = int R" "wheel R G B 4 = int B" "wheel R G B 6 = int G"
  by (simp_all add: wheel_def Let_def)

lemma contrast_value:
  fixes R G B :: nat
  assumes RGB: "R \<le> 255" "G \<le> 255" "B \<le> 255"
  shows "getContrastColor (new_UColor (Fin (of_nat R)) (Fin (of_nat G)) (Fin (of_nat B)) al) =
      new_UColor (Fin (of_nat (max (max R G) B + min (min R G) B - R)))
                 (Fin (of_nat (max (max R G) B + min (min R G) B - G)))
                 (Fin (of_nat (max (max R G) B + min (min R G) B - B))) al"
proof (cases "min (min R G) B < max (max R G) B")
  case True
  from shifted_hsl[OF RGB True, of 3 al] obtain hv sv lv hh where
    h: "rgbToHsl (new_UColor (Fin (of_nat R)) (Fin (of_nat G)) (Fin (of_nat B)) al)
             = (Fin hv, Fin sv, Fin lv)"
    and m: "fmod (fadd (Fin hv) (Fin 180)) (Fin 360) = Fin hh"
    and c: "hslToRgb (Fin hh) (Fin sv) (Fin lv) =
             (Fin (of_int (wheel R G B 5)), Fin (of_int (wheel R G B 3)), Fin (of_int (wheel R G B 1)))"
    by auto
  have le: "R \<le> max (max R G) B" "G \<le> max (max R G) B" "B \<le> max (max R G) B" by simp_all
  have a: "a (new_UColor (Fin (of_nat R)) (Fin (of_nat G)) (Fin (of_nat B)) al) = al"
    by (simp add: new_UColor_def)
  show ?thesis
    by (simp only: getContrastColor_def h m c a case_prod_conv wheel_odd[OF le])
next
  case False
  then have e: "G = R" "B = R" by (auto simp: min_def max_def split: if_splits)
  have a: "a (new_UColor (Fin (of_nat R)) (Fin (of_nat R)) (Fin (of_nat R)) al) = al"
    by (simp add: new_UColor_def)
  show ?thesis
    unfolding e
    by (simp only: getContrastColor_def rgbToHsl_gray[OF RGB(1)] case_prod_conv
      hslToRgb_gray[OF RGB(1)] a) simp
qed

lemma palette_value:
  fixes R G B :: nat
  assumes RGB: "R \<le> 255" "G \<le> 255" "B \<le> 255"
  shows "\<exists>hv s l. rgbToHsl (new_UColor (Fin (of_nat R)) (Fin (of_nat G)) (Fin (of_nat B)) al)
            = (Fin hv, s, l) \<and> 0 \<le> hv \<and> hv < 360 \<and>
          (\<exists>h2 h3.
            fmod (fadd (Fin hv) (Fin 120)) (Fin 360) = Fin h2 \<and> 0 \<le> h2 \<and> h2 < 360 \<and>
            h2 = rnd (hv + 120) - 360 * of_int \<lfloor>rnd (hv + 120) / 360\<rfloor> \<and>
            fmod (fadd (Fin hv) (Fin 240)) (Fin 360) = Fin h3 \<and> 0 \<le> h3 \<and> h3 < 360 \<and>
            h3 = rnd (hv + 240) - 360 * of_int \<lfloor>rnd (hv + 240) / 360\<rfloor> \<and>
            hslToRgb (Fin h2) s l = (Fin (of_nat B), Fin (of_nat R), Fin (of_nat G)) \<and>
            hslToRgb (Fin h3) s l = (Fin (of_nat G), Fin (of_nat B), Fin (of_nat R)))"
proof (cases "min (min R G) B < max (max R G) B")
  case True
  from shifted_hsl[OF RGB True, of 2 al] obtain hv sv lv h2 where
    h: "rgbToHsl (new_UColor (Fin (of_nat R)) (Fin (of_nat G)) (Fin (of_nat B)) al)
             = (Fin hv, Fin sv, Fin lv)" "0 \<le> hv" "hv < 360"
    and m2: "fmod (fadd (Fin hv) (Fin 120)) (Fin 360) = Fin h2" "0 \<le> h2" "h2 < 360"
      "h2 = rnd (hv + 120) - 360 * of_int \<lfloor>rnd (hv + 120) / 360\<rfloor>"
    and c2: "hslToRgb (Fin h2) (Fin sv) (Fin lv) =
             (Fin (of_int (wheel R G B 4)), Fin (of_int (wheel R G B 2)), Fin (of_int (wheel R G B 0)))"
    by auto
  from shifted_hsl[OF RGB True, of 4 al] h(1) obtain h3 where
    m3: "fmod (fadd (Fin hv) (Fin 240)) (Fin 360) = Fin h3" "0 \<le> h3" "h3 < 360"
      "h3 = rnd (hv + 240) - 360 * of_int \<lfloor>rnd (hv + 240) / 360\<rfloor>"
    and c3: "hslToRgb (Fin h3) (Fin sv) (Fin lv) =
             (Fin (of_int (wheel R G B 6)), Fin (of_int (wheel R G B 4)), Fin (of_int (wheel R G B 2)))"
    by auto
  have "hslToRgb (Fin h2) (Fin sv) (Fin lv) = (Fin (of_nat B), Fin (of_nat R), Fin (of_nat G))"
    using c2 by (simp add: wheel_even)
  moreover have "hslToRgb (Fin h3) (Fin sv) (Fin lv) = (Fin (of_nat G), Fin (of_nat B), Fin (of_nat R))"
    using c3 by (simp add: wheel_even)
  ultimately show ?thesis using h m2 m3 by blast
next
  case False
  then have e: "G = R" "B = R" by (auto simp: min_def max_def split: if_splits)
  have fl: "\<lfloor>1 / 3 :: rat\<rfloor> = 0" "\<lfloor>2 / 3 :: rat\<rfloor> = 0" by (simp_all add: floor_eq_iff)
  have f2: "fmod (fadd (Fin 0) (Fin 120)) (Fin 360) = Fin 120"
    and f3: "fmod (fadd (Fin 0) (Fin 240)) (Fin 360) = Fin 240"
    by (simp_all add: fmod_def fl)
  have r: "(120::rat) = rnd (0 + 120) - 360 * of_int \<lfloor>rnd (0 + 120) / 360\<rfloor>"
    "(240::rat) = rnd (0 + 240) - 360 * of_int \<lfloor>rnd (0 + 240) / 360\<rfloor>"
    by (simp_all add: fl)
  show ?thesis
    unfolding e
    apply (rule exI[of _ 0], rule exI[of _ "Fin 0"], rule exI[of _ "fin (of_nat R / 255)"])
    apply (rule conjI, rule rgbToHsl_gray[OF RGB(1)])
    apply (rule conjI, simp, rule conjI, simp)
    apply (rule exI[of _ 120], rule exI[of _ 240])
    using f2 f3 r hslToRgb_gray[OF RGB(1)] by simp
qed

lemma complement_again:
  fixes R G B :: nat
  defines "M \<equiv> max (max R G) B" and "m \<equiv> min (min R G) B"
  shows "max (max (M + m - R) (M + m - G)) (M + m - B) = M"
    and "min (min (M + m - R) (M + m - G)) (M + m - B) = m"
    and "M + m - (M + m - R) = R" "M + m - (M + m - G) = G" "M + m - (M + m - B) = B"
    and "M + m - R \<le> M" "M + m - G \<le> M" "M + m - B \<le> M"
proof -
  have b: "m \<le> R" "m \<le> G" "m \<le> B" "R \<le> M" "G \<le> M" "B \<le> M"
    by (simp_all add: M_def m_def)
  have mc: "m = R \<or> m = G \<or> m = B" by (simp add: m_def min_def)
  have Mc: "M = R \<or> M = G \<or> M = B" by (simp add: M_def max_def)
  show "M + m - (M + m - R) = R" "M + m - (M + m - G) = G" "M + m - (M + m - B) = B"
    "M + m - R \<le> M" "M + m - G \<le> M" "M + m - B \<le> M"
    using b by simp_all
  have lo: "m \<le> M + m - R" "m \<le> M + m - G" "m \<le> M + m - B" using b by simp_all
  have hi: "M + m - R \<le> M" "M + m - G \<le> M" "M + m - B \<le> M" using b by simp_all
  have "M \<le> max (max (M + m - R) (M + m - G)) (M + m - B)"
    using mc b by (elim disjE) (simp_all add: le_max_iff_disj)
  moreover have "max (max (M + m - R) (M + m - G)) (M + m - B) \<le> M"
    using hi by simp
  ultimately show "max (max (M + m - R) (M + m - G)) (M + m - B) = M" by (rule antisym[rotated])
  have "min (min (M + m - R) (M + m - G)) (M + m - B) \<le> m"
    using Mc b by (elim disjE) (simp_all add: min_le_iff_disj)
  moreover have "m \<le> min (min (M + m - R) (M + m - G)) (M + m - B)"
    using lo by simp
  ultimately show "min (min (M + m - R) (M + m - G)) (M + m - B) = m" by (rule antisym)
qed


section \<open>The hue helper in the unit interval\<close>

subsection \<open>Rounding on a grid\<close>

lemma expo_less:
  assumes "\<bar>x\<bar> < 2 powi (E + 1)" "- 1022 \<le> E" "x \<noteq> 0"
  shows "expo x \<le> E"
proof -
  have p: "0 < \<bar>x\<bar>" using assms(3) by simp
  have "ilog 2 \<bar>x\<bar> \<le> E"
  proof (rule ccontr)
    assume "\<not> ilog 2 \<bar>x\<bar> \<le> E"
    then have "E + 1 \<le> ilog 2 \<bar>x\<bar>" by simp
    then have "(2::rat) powi (E + 1) \<le> 2 powi (ilog 2 \<bar>x\<bar>)" by (intro power_int_increasing) simp_all
    also have "\<dots> \<le> \<bar>x\<bar>" using ilog2_bounds(1)[OF p] .
    finally show False using assms(1) by simp
  qed
  then show ?thesis using assms(2) by (simp add: expo_def)
qed

lemma rnd_half:
  assumes "\<bar>x\<bar> < 2 powi (E + 1)" "- 1022 \<le> E"
  shows "\<bar>rnd x - x\<bar> \<le> 2 powi (E - 53)"
proof (cases "x = 0")
  case True
  then show ?thesis by simp
next
  case False
  have "expo x - 52 \<le> E - 52" using expo_less[OF assms False] by simp
  then have "ulp x \<le> 2 powi (E - 52)" unfolding ulp_def by (intro power_int_increasing) simp_all
  moreover have "(2::rat) powi (E - 52) = 2 * 2 powi (E - 53)"
    using power_int_add[of "2::rat" 1 "E - 53"] by simp
  ultimately have "ulp x / 2 \<le> 2 powi (E - 53)" by simp
  with rnd_err[of x] show ?thesis by (rule order_trans)
qed

lemma rnd_tie_one:
  assumes "x \<le> 1 + 2 powi (- 53)"
  shows "rnd x \<le> 1"
proof -
  have "rnd (1 + 2 powi (- 53)) = 1"
    by (subst rnd_eval[where e = 0]) (simp_all add: round_even_def Let_def)
  with rnd_mono[OF assms] show ?thesis by simp
qed

lemma rnd_up:
  assumes "0 \<le> x"
  shows "rnd x \<le> x * (1 + 1 / 2 ^ 53) + 2 powi (- 1075)"
proof (cases "2 powi (- 1022) \<le> x")
  case True
  then have "2 powi (- 1022) \<le> \<bar>x\<bar>" using assms by simp
  from rnd_rel_err[OF this] have "\<bar>rnd x - x\<bar> \<le> x / 2 ^ 53" using assms by simp
  then have "rnd x \<le> x + x / 2 ^ 53" by linarith
  moreover have "(0::rat) \<le> 2 powi (- 1075)" by simp
  ultimately show ?thesis by (simp add: algebra_simps)
next
  case False
  define P :: rat where "P = 2 powi (- 1075)"
  have "\<bar>x\<bar> \<le> 2 powi (- 1022)" using False assms by simp
  then have "\<bar>rnd x - x\<bar> \<le> 2 powi (- 1022 - 53)" by (rule rnd_abs_err) simp
  moreover have "(- 1022 - 53 :: int) = - 1075" by simp
  ultimately have "\<bar>rnd x - x\<bar> \<le> P" unfolding P_def by (simp only:)
  then have "rnd x \<le> x + P" by linarith
  moreover have "0 \<le> x * (1 / 2 ^ 53)" using assms by simp
  ultimately have "rnd x \<le> x * (1 + 1 / 2 ^ 53) + P" by (simp add: algebra_simps)
  then show ?thesis unfolding P_def .
qed

lemma double_grid:
  assumes "rnd x = x" "2 powi e \<le> \<bar>x\<bar>" "- 1022 \<le> e"
  shows "\<exists>k::int. x = of_int k * 2 powi (e - 52)"
proof -
  have pos: "0 < (2::rat) powi e" by simp
  have nz: "x \<noteq> 0"
  proof
    assume "x = 0"
    with assms(2) have "(2::rat) powi e \<le> 0" by simp
    with pos show False by linarith
  qed
  have "2 powi (- 1022) \<le> (2::rat) powi e" using assms(3) by (intro power_int_increasing) simp_all
  then have "2 powi (- 1022) \<le> \<bar>x\<bar>" using assms(2) by simp
  note en = expo_normal[OF this]
  have "e \<le> expo x"
  proof (rule ccontr)
    assume "\<not> e \<le> expo x"
    then have "expo x + 1 \<le> e" by simp
    then have "(2::rat) powi (expo x + 1) \<le> 2 powi e" by (intro power_int_increasing) simp_all
    with abs_less_expo[OF nz] assms(2) show False by simp
  qed
  define j where "j = nat (expo x - e)"
  have j: "expo x - 52 = int j + (e - 52)" using \<open>e \<le> expo x\<close> by (simp add: j_def)
  have "(2::rat) powi (expo x - 52) = 2 ^ j * 2 powi (e - 52)"
    unfolding j by (simp add: power_int_add)
  then have "rnd x = of_int (round_even (x / ulp x) * 2 ^ j) * 2 powi (e - 52)"
    using rnd_rep_form(1)[OF nz] by simp
  then show ?thesis using assms(1) by metis
qed

lemma grid_above_one:
  assumes "1 \<le> x" "x \<le> 2"
  shows "\<exists>k::int. rnd x = of_int k * 2 powi (- 52) \<and> 2 ^ 52 \<le> k \<and> k \<le> 2 ^ 53"
    and "\<bar>rnd x - x\<bar> \<le> 2 powi (- 53)"
proof -
  have lo: "1 \<le> rnd x" using assms(1) by (intro rnd_ge) simp_all
  have hi: "rnd x \<le> 2" using assms(2) by (intro rnd_le) simp_all
  have "2 powi 0 \<le> \<bar>rnd x\<bar>" using lo by simp
  from double_grid[OF _ this, of ] obtain k :: int where k: "rnd x = of_int k * 2 powi (0 - 52)"
    by auto
  then have k': "rnd x = of_int k / 2 ^ 52" by (simp add: power_int_minus_divide)
  have "(of_int (2 ^ 52) :: rat) \<le> of_int k" using lo k' by (simp add: field_simps)
  then have 1: "2 ^ 52 \<le> k" by (simp only: of_int_le_iff)
  have "(of_int k :: rat) \<le> of_int (2 ^ 53)" using hi k' by (simp add: field_simps)
  then have 2: "k \<le> 2 ^ 53" by (simp only: of_int_le_iff)
  from k 1 2 show "\<exists>k::int. rnd x = of_int k * 2 powi (- 52) \<and> 2 ^ 52 \<le> k \<and> k \<le> 2 ^ 53"
    by auto
  show "\<bar>rnd x - x\<bar> \<le> 2 powi (- 53)"
  proof (cases "x = 2")
    case True
    then show ?thesis by simp
  next
    case False
    then have "\<bar>x\<bar> < 2 powi (0 + 1)" using assms by simp
    from rnd_half[OF this] show ?thesis by simp
  qed
qed

lemma q_le_one:
  assumes l: "0 \<le> lv" "lv \<le> 1" and s: "0 \<le> sv" "sv \<le> 1"
  shows "rnd (rnd (lv + sv) - rnd (lv * sv)) \<le> 1"
proof -
  define x where "x = lv * sv"
  define y where "y = rnd (1 + x)"
  define A where "A = rnd (lv + sv)"
  define Bm where "Bm = rnd x"
  have x0: "0 \<le> x" using l s by (simp add: x_def)
  have "lv * sv \<le> 1 * 1" using l s by (intro mult_mono) simp_all
  then have x1: "x \<le> 1" by (simp add: x_def)
  have "0 \<le> (1 - lv) * (1 - sv)" using l s by (intro mult_nonneg_nonneg) simp_all
  then have sum: "lv + sv \<le> 1 + x" by (simp add: x_def algebra_simps)
  have Ay: "A \<le> y" unfolding A_def y_def using sum by (rule rnd_mono)
  have B0: "0 \<le> Bm" unfolding Bm_def using x0 by (rule rnd_nonneg)
  have r: "1 \<le> 1 + x" "1 + x \<le> 2" using x0 x1 by simp_all
  from grid_above_one[OF r] obtain k :: int where
    k: "y = of_int k * 2 powi (- 52)" "2 ^ 52 \<le> k" "k \<le> 2 ^ 53"
    and e: "\<bar>y - (1 + x)\<bar> \<le> 2 powi (- 53)" unfolding y_def by blast
  have "A - Bm \<le> 1 + 2 powi (- 53)"
  proof (cases "k = 2 ^ 52")
    case True
    then have "y = 1" using k(1) by (simp add: power_int_minus_divide)
    then show ?thesis using Ay B0 by simp
  next
    case False
    then have k1: "2 ^ 52 + 1 \<le> k" using k(2) by simp
    define z :: rat where "z = of_int (2 * k - 2 ^ 53 - 1) * 2 powi (- 53)"
    have zy: "z = y - 1 - 2 powi (- 53)" by (simp add: z_def k(1) power_int_minus_divide field_simps)
    have "\<bar>2 * k - 2 ^ 53 - 1\<bar> \<le> 2 ^ 53" using k1 k(3) by simp
    then have "rnd z = z" unfolding z_def by (rule rnd_exact) simp
    moreover have "z \<le> x" using e unfolding zy by linarith
    ultimately have "z \<le> Bm" unfolding Bm_def by (intro rnd_ge)
    then show ?thesis using Ay unfolding zy by linarith
  qed
  then show ?thesis unfolding A_def Bm_def x_def by (rule rnd_tie_one)
qed

lemma below_one:
  assumes "rnd x = x" "1/2 \<le> x" "x < 1"
  shows "x \<le> 1 - 2 powi (- 53)"
proof -
  have "2 powi (- 1) \<le> \<bar>x\<bar>" using assms(2) by (simp add: power_int_minus_divide)
  from double_grid[OF assms(1) this] obtain k :: int where k: "x = of_int k * 2 powi (- 1 - 52)"
    by auto
  then have k': "x = of_int k / 2 ^ 53" by (simp add: power_int_minus_divide)
  have "(of_int k :: rat) < of_int (2 ^ 53)" using assms(3) k' by (simp add: field_simps)
  then have "k < 2 ^ 53" by (simp only: of_int_less_iff)
  then have "k \<le> 2 ^ 53 - 1" by simp
  then have "(of_int k :: rat) \<le> of_int (2 ^ 53 - 1)" by (simp only: of_int_le_iff)
  then show ?thesis using k' by (simp add: power_int_minus_divide field_simps)
qed

subsection \<open>The bounds \<open>p\<close> and \<open>q\<close>\<close>

lemma high_branch:
  assumes l: "1/2 \<le> lv" "lv \<le> 1" "rnd lv = lv" and s: "0 \<le> sv" "sv \<le> 1" "rnd sv = sv"
  shows "2 * lv - rnd (rnd (lv + sv) - rnd (lv * sv)) \<le> 1 + 2 powi (- 53)"
    and "1/4 \<le> rnd (rnd (lv + sv) - rnd (lv * sv))"
proof -
  define x where "x = lv * sv"
  define A where "A = rnd (lv + sv)"
  define Bm where "Bm = rnd x"
  define q where "q = rnd (A - Bm)"
  define e :: rat where "e = 2 powi (- 53)"
  have e: "e = 1 / 2 ^ 53" by (simp add: e_def power_int_minus_divide)
  have x0: "0 \<le> x" using l s by (simp add: x_def)
  have "lv * sv \<le> lv * 1" using l s by (intro mult_left_mono) simp_all
  then have xl: "x \<le> lv" by (simp add: x_def)
  have "lv * sv \<le> 1 * sv" using l s by (intro mult_right_mono) simp_all
  then have xs: "x \<le> sv" by (simp add: x_def)
  have r4: "rnd (1/4) = 1/4" using rnd_pow2[of "- 2"] by (simp add: power_int_minus_divide)
  have main: "2 * lv - 1 - e \<le> A - Bm \<and> 1/4 \<le> A - Bm"
  proof (cases "lv = 1")
    case True
    have "1 \<le> 1 + sv" "1 + sv \<le> 2" using s by simp_all
    from grid_above_one(2)[OF this] have "\<bar>rnd (1 + sv) - (1 + sv)\<bar> \<le> e" by (simp add: e_def)
    then have "1 + sv - e \<le> A" unfolding A_def True by linarith
    moreover have "Bm = sv" using s(3) by (simp add: Bm_def x_def True)
    ultimately show ?thesis using True by (simp add: e)
  next
    case False
    then have l1: "lv < 1" using l(2) by simp
    from below_one[OF l(3,1) l1] have l2: "lv \<le> 1 - e" by (simp add: e_def)
    have "rnd (lv + x) \<le> A" unfolding A_def using xs by (intro rnd_mono) simp
    moreover have "\<bar>lv + x\<bar> < 2 powi (0 + 1)" using l1 l xl x0 by simp
    from rnd_half[OF this] have "\<bar>rnd (lv + x) - (lv + x)\<bar> \<le> e" by (simp add: e_def)
    ultimately have a: "lv + x - e \<le> A" by linarith
    have "\<bar>x\<bar> < 2 powi (- 1 + 1)" using l1 xl x0 by simp
    from rnd_half[OF this] have "\<bar>rnd x - x\<bar> \<le> 2 powi (- 1 - 53)" by simp
    then have "\<bar>Bm - x\<bar> \<le> e / 2" by (simp add: Bm_def e power_int_minus_divide)
    then have b: "Bm \<le> x + e / 2" by linarith
    show ?thesis using a b l2 l(1) by (simp add: e)
  qed
  have q4: "1/4 \<le> q" unfolding q_def using main r4 by (intro rnd_ge) simp_all
  have q0: "0 \<le> q" using q4 by simp
  have "2 * lv - 1 - e \<le> q"
  proof (cases "0 \<le> 2 * lv - 1 - e")
    case True
    have "2 powi (- 1) \<le> \<bar>lv\<bar>" using l(1) by (simp add: power_int_minus_divide)
    from double_grid[OF l(3) this] obtain k :: int where k: "lv = of_int k * 2 powi (- 1 - 52)"
      by auto
    then have k': "lv = of_int k / 2 ^ 53" by (simp add: power_int_minus_divide)
    have "(of_int k :: rat) \<le> of_int (2 ^ 53)" using l(2) k' by (simp add: field_simps)
    then have k1: "k \<le> 2 ^ 53" by (simp only: of_int_le_iff)
    have R: "2 * lv - 1 - e = of_int (2 * k - 2 ^ 53 - 1) * 2 powi (- 53)"
      by (simp add: k' e power_int_minus_divide field_simps)
    have "(0::rat) \<le> of_int (2 * k - 2 ^ 53 - 1)" using True unfolding R by (simp add: zero_le_mult_iff)
    then have "0 \<le> 2 * k - 2 ^ 53 - 1" by (simp only: of_int_0_le_iff)
    then have "\<bar>2 * k - 2 ^ 53 - 1\<bar> \<le> 2 ^ 53" using k1 by simp
    then have "rnd (of_int (2 * k - 2 ^ 53 - 1) * 2 powi (- 53)) = of_int (2 * k - 2 ^ 53 - 1) * 2 powi (- 53)"
      by (rule rnd_exact) simp
    then have "rnd (2 * lv - 1 - e) = 2 * lv - 1 - e" by (simp only: R)
    with main show ?thesis unfolding q_def by (intro rnd_ge) simp_all
  next
    case False
    then show ?thesis using q0 by simp
  qed
  then show "2 * lv - rnd (rnd (lv + sv) - rnd (lv * sv)) \<le> 1 + 2 powi (- 53)"
    unfolding q_def A_def Bm_def x_def e_def by simp
  show "1/4 \<le> rnd (rnd (lv + sv) - rnd (lv * sv))"
    using q4 unfolding q_def A_def Bm_def x_def .
qed

lemma low_branch:
  assumes l: "0 \<le> lv" "lv < 1/2" "rnd lv = lv" and s: "0 \<le> sv" "sv \<le> 1"
  shows "0 \<le> rnd (rnd (2 * lv) - rnd (lv * rnd (1 + sv)))"
    and "rnd (rnd (2 * lv) - rnd (lv * rnd (1 + sv))) \<le> rnd (lv * rnd (1 + sv))"
    and "rnd (lv * rnd (1 + sv)) \<le> 1"
    and "0 \<le> rnd (lv * rnd (1 + sv))"
proof -
  define a where "a = rnd (1 + sv)"
  define q where "q = rnd (lv * a)"
  have a1: "1 \<le> a" unfolding a_def using s by (intro rnd_ge) simp_all
  have a2: "a \<le> 2" unfolding a_def using s by (intro rnd_le) simp_all
  have "lv * 1 \<le> lv * a" using l a1 by (intro mult_left_mono) simp_all
  then have la1: "lv \<le> lv * a" by simp
  have "lv * a \<le> lv * 2" using l a2 by (intro mult_left_mono) simp_all
  then have la2: "lv * a \<le> 2 * lv" by simp
  have b: "rnd (2 * lv) = 2 * lv" using l(3) by (rule rnd_rep_double)
  have ql: "lv \<le> q" unfolding q_def using la1 l(3) by (rule rnd_ge)
  have qb: "q \<le> 2 * lv" unfolding q_def using la2 b by (rule rnd_le)
  show "rnd (lv * rnd (1 + sv)) \<le> 1" using qb l(2) by (simp add: q_def a_def)
  show "0 \<le> rnd (lv * rnd (1 + sv))" using ql l(1) by (simp add: q_def a_def)
  have "0 \<le> rnd (2 * lv - q)" using qb by (intro rnd_nonneg) simp
  then show "0 \<le> rnd (rnd (2 * lv) - rnd (lv * rnd (1 + sv)))" by (simp add: b q_def a_def)
  have "2 * lv - q \<le> lv" using ql by simp
  then have "rnd (2 * lv - q) \<le> lv" using l(3) by (rule rnd_le)
  then have "rnd (2 * lv - q) \<le> q" using ql by simp
  then show "rnd (rnd (2 * lv) - rnd (lv * rnd (1 + sv))) \<le> rnd (lv * rnd (1 + sv))"
    by (simp add: b q_def a_def)
qed

lemma pq_unit:
  assumes s: "0 \<le> sv" "sv \<le> 1" "rnd sv = sv" and l: "0 \<le> lv" "lv \<le> 1" "rnd lv = lv"
  shows "\<exists>q p. (if flt (Fin lv) (Fin (1/2)) then fmul (Fin lv) (fadd (Fin 1) (Fin sv))
                  else fsub (fadd (Fin lv) (Fin sv)) (fmul (Fin lv) (Fin sv))) = Fin q \<and>
               fsub (fmul (Fin 2) (Fin lv)) (Fin q) = Fin p \<and>
               0 \<le> p \<and> p \<le> 1 \<and> 0 \<le> q \<and> q \<le> 1 \<and> (p \<le> q \<or> 1/4 \<le> q) \<and>
               rnd p = p \<and> rnd q = q"
proof -
  have b: "rnd (2 * lv) = 2 * lv" using l(3) by (rule rnd_rep_double)
  have "\<bar>2 * lv\<bar> \<le> 2 powi 1" using l by simp
  then have fb: "fin (2 * lv) = Fin (2 * lv)" using fin_Fin[of "2 * lv" 1] b by simp
  show ?thesis
  proof (cases "lv < 1/2")
    case True
    define a where "a = rnd (1 + sv)"
    define q where "q = rnd (lv * a)"
    define p where "p = rnd (2 * lv - q)"
    note lb = low_branch[OF l(1) True l(3) s(1,2), unfolded b, folded a_def, folded q_def, folded p_def]
    have "\<bar>1 + sv\<bar> \<le> 2 powi 1" using s by simp
    then have fa: "fin (1 + sv) = Fin a" unfolding a_def by (rule fin_Fin) simp_all
    have a1: "1 \<le> a" unfolding a_def using s by (intro rnd_ge) simp_all
    have a2: "a \<le> 2" unfolding a_def using s by (intro rnd_le) simp_all
    have "\<bar>lv * a\<bar> = \<bar>lv\<bar> * \<bar>a\<bar>" by (rule abs_mult)
    also have "\<dots> \<le> 1 * 2" using l a1 a2 by (intro mult_mono) simp_all
    finally have "\<bar>lv * a\<bar> \<le> 2 powi 1" by simp
    then have fq: "fin (lv * a) = Fin q" unfolding q_def by (rule fin_Fin) simp_all
    have "\<bar>2 * lv - q\<bar> \<le> 2 powi 1" using lb(3,4) l by simp
    then have fp: "fin (2 * lv - q) = Fin p" unfolding p_def by (rule fin_Fin) simp_all
    have pq: "p \<le> 1" using lb(2,3) by simp
    have "(if flt (Fin lv) (Fin (1/2)) then fmul (Fin lv) (fadd (Fin 1) (Fin sv))
                  else fsub (fadd (Fin lv) (Fin sv)) (fmul (Fin lv) (Fin sv))) = Fin q"
      using True fa fq by simp
    moreover have "fsub (fmul (Fin 2) (Fin lv)) (Fin q) = Fin p" using fb fp by simp
    moreover have "rnd p = p" "rnd q = q" by (simp_all add: p_def q_def)
    ultimately show ?thesis using lb pq by blast
  next
    case False
    then have lh: "1/2 \<le> lv" by simp
    define A where "A = rnd (lv + sv)"
    define Bm where "Bm = rnd (lv * sv)"
    define q where "q = rnd (A - Bm)"
    define p where "p = rnd (2 * lv - q)"
    note hb = high_branch[OF lh l(2,3) s, folded A_def Bm_def, folded q_def]
    have q1: "q \<le> 1" using q_le_one[OF l(1,2) s(1,2)] by (simp add: q_def A_def Bm_def)
    have q0: "0 \<le> q" using hb(2) by simp
    have "\<bar>lv + sv\<bar> \<le> 2 powi 1" using s l by simp
    note FA = fin_op[OF this, folded A_def]
    have fA: "fin (lv + sv) = Fin A" using FA(1) by simp
    have "\<bar>lv * sv\<bar> = \<bar>lv\<bar> * \<bar>sv\<bar>" by (rule abs_mult)
    also have "\<dots> \<le> 1 * 1" using l s by (intro mult_mono) simp_all
    finally have "\<bar>lv * sv\<bar> \<le> 2 powi 0" by simp
    note FB = fin_op[OF this, folded Bm_def]
    have fB: "fin (lv * sv) = Fin Bm" using FB(1) by simp
    have "\<bar>A\<bar> \<le> 2" "\<bar>Bm\<bar> \<le> 1" using FA(2) FB(2) by simp_all
    then have "\<bar>A - Bm\<bar> \<le> 2 powi 2" by simp
    then have fq: "fin (A - Bm) = Fin q" unfolding q_def by (rule fin_Fin) simp_all
    have "\<bar>2 * lv - q\<bar> \<le> 2 powi 2" using q0 q1 l by simp
    then have fp: "fin (2 * lv - q) = Fin p" unfolding p_def by (rule fin_Fin) simp_all
    have p1: "p \<le> 1" unfolding p_def using hb(1) by (rule rnd_tie_one)
    have p0: "0 \<le> p" unfolding p_def using q1 lh by (intro rnd_nonneg) simp
    have "(if flt (Fin lv) (Fin (1/2)) then fmul (Fin lv) (fadd (Fin 1) (Fin sv))
                  else fsub (fadd (Fin lv) (Fin sv)) (fmul (Fin lv) (Fin sv))) = Fin q"
      using False fA fB fq by simp
    moreover have "fsub (fmul (Fin 2) (Fin lv)) (Fin q) = Fin p" using fb fp by simp
    moreover have "rnd p = p" "rnd q = q" by (simp_all add: p_def q_def)
    ultimately show ?thesis using p0 p1 q0 q1 hb(2) by blast
  qed
qed

subsection \<open>The ramps\<close>

lemma tiny_le:
  fixes d :: rat
  assumes "2 powi (- 1000) \<le> d"
  shows "2 powi (- 1075) \<le> d / 2 ^ 75"
proof -
  have "(2::rat) powi (- 1075) = 2 powi (- 1000) * 2 powi (- 75)"
    using power_int_add[of "2::rat" "- 1000" "- 75"] by simp
  also have "\<dots> \<le> d * 2 powi (- 75)" using assms by (intro mult_right_mono) simp_all
  finally show ?thesis by (simp add: power_int_minus_divide)
qed

lemma small_six:
  fixes x :: rat
  assumes "0 \<le> x" "x \<le> 2 powi (- 1000)"
  shows "x * 6 \<le> 2 powi (- 997)"
proof -
  have "(2::rat) powi (- 997) = 2 powi 3 * 2 powi (- 1000)"
    using power_int_add[of "2::rat" 3 "- 1000"] by simp
  then have "(2::rat) powi (- 997) = 8 * 2 powi (- 1000)" by simp
  moreover have "x * 6 \<le> 8 * 2 powi (- 1000)" using assms by linarith
  ultimately show ?thesis by simp
qed

lemma ramp_pos1:
  assumes d: "0 \<le> d" "rnd d = d" and t: "0 \<le> t" "t \<le> 1/6 * (1 - 1/2 ^ 52)"
  shows "0 \<le> rnd (rnd (d * 6) * t)"
    and "rnd (rnd (d * 6) * t) \<le> d \<or> rnd (rnd (d * 6) * t) \<le> 2 powi (- 997)"
proof -
  define m where "m = rnd (d * 6)"
  have m0: "0 \<le> m" unfolding m_def using d(1) by (intro rnd_nonneg) simp
  show "0 \<le> rnd (rnd (d * 6) * t)" using m0 t(1) by (intro rnd_nonneg) (simp add: m_def)
  show "rnd (rnd (d * 6) * t) \<le> d \<or> rnd (rnd (d * 6) * t) \<le> 2 powi (- 997)"
  proof (cases "2 powi (- 1000) \<le> d")
    case True
    define P :: rat where "P = 2 powi (- 1075)"
    have P: "P \<le> d / 2 ^ 75" unfolding P_def using True by (rule tiny_le)
    have "0 \<le> d * 6" using d(1) by simp
    from rnd_up[OF this] have "m \<le> d * 6 * (1 + 1 / 2 ^ 53) + P" by (simp add: m_def P_def)
    then have mu: "m \<le> d * (6 * (1 + 1 / 2 ^ 53) + 1 / 2 ^ 75)" using P by (simp add: algebra_simps)
    have "m * t \<le> (d * (6 * (1 + 1 / 2 ^ 53) + 1 / 2 ^ 75)) * (1/6 * (1 - 1/2 ^ 52))"
      using mu t m0 by (intro mult_mono) simp_all
    also have "\<dots> = d * ((6 * (1 + 1 / 2 ^ 53) + 1 / 2 ^ 75) * (1/6 * (1 - 1/2 ^ 52)))"
      by (simp only: mult.assoc)
    also have "\<dots> \<le> d * 1" using d(1) by (intro mult_left_mono) simp_all
    finally have "m * t \<le> d" by simp
    then have "rnd (m * t) \<le> d" using d(2) by (rule rnd_le)
    then show ?thesis by (simp add: m_def)
  next
    case False
    define Q :: rat where "Q = 2 powi (- 997)"
    have rq: "rnd Q = Q" unfolding Q_def by (rule rnd_pow2) simp
    have q0: "0 \<le> Q" by (simp add: Q_def)
    have "d * 6 \<le> Q" unfolding Q_def using d(1) False by (intro small_six) simp_all
    then have mq: "m \<le> Q" unfolding m_def using rq by (rule rnd_le)
    have "m * t \<le> Q * 1" using mq m0 t q0 by (intro mult_mono) simp_all
    then have "m * t \<le> Q" by simp
    then have "rnd (m * t) \<le> Q" using rq by (rule rnd_le)
    then show ?thesis by (simp add: m_def Q_def)
  qed
qed

lemma ramp_pos2:
  assumes d: "0 \<le> d" "rnd d = d" and u: "0 \<le> u" "u \<le> 1/6 * (1 - 1/2 ^ 52)"
  shows "0 \<le> rnd (rnd (d * u) * 6)"
    and "rnd (rnd (d * u) * 6) \<le> d \<or> rnd (rnd (d * u) * 6) \<le> 2 powi (- 997)"
proof -
  define m where "m = rnd (d * u)"
  have du0: "0 \<le> d * u" using d(1) u(1) by simp
  have m0: "0 \<le> m" unfolding m_def using du0 by (rule rnd_nonneg)
  show "0 \<le> rnd (rnd (d * u) * 6)" using m0 by (intro rnd_nonneg) (simp add: m_def)
  have duT: "d * u \<le> d * (1/6 * (1 - 1/2 ^ 52))" using d(1) u(2) by (intro mult_left_mono)
  show "rnd (rnd (d * u) * 6) \<le> d \<or> rnd (rnd (d * u) * 6) \<le> 2 powi (- 997)"
  proof (cases "2 powi (- 1000) \<le> d")
    case True
    define P :: rat where "P = 2 powi (- 1075)"
    define DU where "DU = d * u"
    have P: "P \<le> d / 2 ^ 75" unfolding P_def using True by (rule tiny_le)
    from rnd_up[OF du0] have "m \<le> DU * (1 + 1 / 2 ^ 53) + P" by (simp add: m_def P_def DU_def)
    moreover have "DU * (1 + 1 / 2 ^ 53) \<le> (d * (1/6 * (1 - 1/2 ^ 52))) * (1 + 1 / 2 ^ 53)"
      unfolding DU_def using duT by (intro mult_right_mono) simp_all
    ultimately have "m \<le> (d * (1/6 * (1 - 1/2 ^ 52))) * (1 + 1 / 2 ^ 53) + d / 2 ^ 75"
      using P by linarith
    also have "\<dots> = d * ((1/6 * (1 - 1/2 ^ 52)) * (1 + 1 / 2 ^ 53) + 1 / 2 ^ 75)"
      by (simp add: algebra_simps)
    finally have "m * 6 \<le> d * ((1/6 * (1 - 1/2 ^ 52)) * (1 + 1 / 2 ^ 53) + 1 / 2 ^ 75) * 6" by simp
    also have "\<dots> = d * (((1/6 * (1 - 1/2 ^ 52)) * (1 + 1 / 2 ^ 53) + 1 / 2 ^ 75) * 6)"
      by (simp only: mult.assoc)
    also have "\<dots> \<le> d * 1" using d(1) by (intro mult_left_mono) simp_all
    finally have "m * 6 \<le> d" by simp
    then have "rnd (m * 6) \<le> d" using d(2) by (rule rnd_le)
    then show ?thesis by (simp add: m_def)
  next
    case False
    define Q :: rat where "Q = 2 powi (- 997)"
    define Q0 :: rat where "Q0 = 2 powi (- 1000)"
    have rq: "rnd Q = Q" unfolding Q_def by (rule rnd_pow2) simp
    have rq0: "rnd Q0 = Q0" unfolding Q0_def by (rule rnd_pow2) simp
    have dq: "d \<le> Q0" using False by (simp add: Q0_def)
    have "d * u \<le> d * 1" using d(1) u by (intro mult_left_mono) simp_all
    then have "d * u \<le> Q0" using dq by simp
    then have mq: "m \<le> Q0" unfolding m_def using rq0 by (rule rnd_le)
    have "m * 6 \<le> Q" unfolding Q_def using m0 mq[unfolded Q0_def] by (rule small_six)
    then have "rnd (m * 6) \<le> Q" using rq by (rule rnd_le)
    then show ?thesis by (simp add: m_def Q_def)
  qed
qed

lemma ramp_core:
  assumes p: "0 \<le> p" "p \<le> 1" "rnd p = p" and q: "0 \<le> q" "q \<le> 1" and o: "p \<le> q \<or> 1/4 \<le> q"
    and pos: "0 \<le> q - p \<Longrightarrow> 0 \<le> w \<and> (w \<le> rnd (q - p) \<or> w \<le> 2 powi (- 997))"
    and neg: "q - p \<le> 0 \<Longrightarrow> w \<le> 0 \<and> (- w \<le> rnd (p - q) \<or> - w \<le> 2 powi (- 997))"
  shows "0 \<le> rnd (p + w)" "rnd (p + w) \<le> 1" "\<bar>p + w\<bar> \<le> 2 powi 1"
proof -
  define Q :: rat where "Q = 2 powi (- 997)"
  define e :: rat where "e = 2 powi (- 53)"
  have "(2::rat) powi (- 997) \<le> 2 powi (- 53)" by (intro power_int_increasing) simp_all
  then have Qe: "Q \<le> e" by (simp add: Q_def e_def)
  have e4: "e \<le> 1/4" "0 \<le> e" by (simp_all add: e_def power_int_minus_divide)
  have b: "0 \<le> p + w \<and> p + w \<le> 1 + e"
  proof (cases "p \<le> q")
    case True
    then have qp: "0 \<le> q - p" by simp
    note w = pos[OF qp, folded Q_def]
    have "\<bar>q - p\<bar> \<le> 2 powi 0" using p q True by simp
    then have "\<bar>rnd (q - p) - (q - p)\<bar> \<le> 2 powi (0 - 53)" by (rule rnd_abs_err) simp
    then have "\<bar>rnd (q - p) - (q - p)\<bar> \<le> e" unfolding e_def by (simp only: diff_0)
    then have "rnd (q - p) \<le> q - p + e" by linarith
    then show ?thesis using w p q Qe e4 by auto
  next
    case False
    then have qp: "q - p \<le> 0" and q4: "1/4 \<le> q" using o by simp_all
    note w = neg[OF qp, folded Q_def]
    have "rnd (p - q) \<le> p" using q(1) p(3) by (intro rnd_le) simp_all
    then show ?thesis using w p q q4 False Qe e4 by auto
  qed
  show "0 \<le> rnd (p + w)" using b by (intro rnd_nonneg) simp
  show "rnd (p + w) \<le> 1" using b unfolding e_def by (intro rnd_tie_one) simp
  show "\<bar>p + w\<bar> \<le> 2 powi 1" using b e4 by simp
qed

lemma ramp_unit:
  assumes p: "0 \<le> p" "p \<le> 1" "rnd p = p" and q: "0 \<le> q" "q \<le> 1" and o: "p \<le> q \<or> 1/4 \<le> q"
    and u: "0 \<le> u" "u \<le> 1/6 * (1 - 1/2 ^ 52)"
  shows "\<exists>v. fadd (Fin p) (fmul (fmul (fsub (Fin q) (Fin p)) (Fin 6)) (Fin u)) = Fin v \<and>
           0 \<le> v \<and> v \<le> 1"
    and "\<exists>v. fadd (Fin p) (fmul (fmul (fsub (Fin q) (Fin p)) (Fin u)) (Fin 6)) = Fin v \<and>
           0 \<le> v \<and> v \<le> 1"
proof -
  define d where "d = rnd (q - p)"
  have "\<bar>q - p\<bar> \<le> 2 powi 0" using p q by simp
  note D = fin_op[OF this, folded d_def]
  have D1: "fin (q - p) = Fin d" using D(1) by simp
  have dabs: "\<bar>d\<bar> \<le> 1" using D(2) by simp
  have dd: "rnd d = d" by (simp add: d_def)
  have dm: "rnd (p - q) = - d" using rnd_minus[of "q - p"] by (simp add: d_def)
  have u1: "u \<le> 1" using u by simp
  show "\<exists>v. fadd (Fin p) (fmul (fmul (fsub (Fin q) (Fin p)) (Fin 6)) (Fin u)) = Fin v \<and>
           0 \<le> v \<and> v \<le> 1"
  proof -
    define m where "m = rnd (d * 6)"
    define w where "w = rnd (m * u)"
    define v where "v = rnd (p + w)"
    have "\<bar>d * 6\<bar> \<le> 2 powi 3" using dabs by (simp add: abs_mult)
    note M = fin_op[OF this, folded m_def]
    have M1: "fin (d * 6) = Fin m" using M(1) by simp
    have mabs: "\<bar>m\<bar> \<le> 8" using M(2) by simp
    have "\<bar>m * u\<bar> \<le> 8 * 1" using mabs u(1) u1 by (rule abs_mult_bound)
    then have "\<bar>m * u\<bar> \<le> 2 powi 3" by simp
    then have W1: "fin (m * u) = Fin w" unfolding w_def by (rule fin_Fin) simp_all
    have pos: "0 \<le> q - p \<Longrightarrow> 0 \<le> w \<and> (w \<le> rnd (q - p) \<or> w \<le> 2 powi (- 997))"
    proof -
      assume "0 \<le> q - p"
      then have "0 \<le> d" unfolding d_def by (rule rnd_nonneg)
      from ramp_pos1[OF this dd u] show ?thesis by (simp add: w_def m_def d_def)
    qed
    have neg: "q - p \<le> 0 \<Longrightarrow> w \<le> 0 \<and> (- w \<le> rnd (p - q) \<or> - w \<le> 2 powi (- 997))"
    proof -
      assume "q - p \<le> 0"
      then have "0 \<le> rnd (p - q)" by (intro rnd_nonneg) simp
      then have d0: "0 \<le> - d" by (simp only: dm)
      have md: "rnd (- d) = - d" using rnd_minus[of d] dd by simp
      have e: "rnd (rnd (- d * 6) * u) = - w"
        using rnd_minus[of "d * 6"] rnd_minus[of "m * u"] by (simp add: w_def m_def)
      from ramp_pos1[OF d0 md u] show ?thesis unfolding e dm by simp
    qed
    note c = ramp_core[OF p q o pos neg, folded v_def]
    have V1: "fin (p + w) = Fin v" unfolding v_def using c(3) by (rule fin_Fin) simp_all
    have "fadd (Fin p) (fmul (fmul (fsub (Fin q) (Fin p)) (Fin 6)) (Fin u)) = Fin v"
      using D1 M1 W1 V1 by simp
    with c(1,2) show ?thesis by blast
  qed
  show "\<exists>v. fadd (Fin p) (fmul (fmul (fsub (Fin q) (Fin p)) (Fin u)) (Fin 6)) = Fin v \<and>
           0 \<le> v \<and> v \<le> 1"
  proof -
    define m where "m = rnd (d * u)"
    define w where "w = rnd (m * 6)"
    define v where "v = rnd (p + w)"
    have "\<bar>d * u\<bar> \<le> 1 * 1" using dabs u(1) u1 by (rule abs_mult_bound)
    then have "\<bar>d * u\<bar> \<le> 2 powi 0" by simp
    note M = fin_op[OF this, folded m_def]
    have M1: "fin (d * u) = Fin m" using M(1) by simp
    have mabs: "\<bar>m\<bar> \<le> 1" using M(2) by simp
    then have "\<bar>m * 6\<bar> \<le> 2 powi 3" by (simp add: abs_mult)
    then have W1: "fin (m * 6) = Fin w" unfolding w_def by (rule fin_Fin) simp_all
    have pos: "0 \<le> q - p \<Longrightarrow> 0 \<le> w \<and> (w \<le> rnd (q - p) \<or> w \<le> 2 powi (- 997))"
    proof -
      assume "0 \<le> q - p"
      then have "0 \<le> d" unfolding d_def by (rule rnd_nonneg)
      from ramp_pos2[OF this dd u] show ?thesis by (simp add: w_def m_def d_def)
    qed
    have neg: "q - p \<le> 0 \<Longrightarrow> w \<le> 0 \<and> (- w \<le> rnd (p - q) \<or> - w \<le> 2 powi (- 997))"
    proof -
      assume "q - p \<le> 0"
      then have "0 \<le> rnd (p - q)" by (intro rnd_nonneg) simp
      then have d0: "0 \<le> - d" by (simp only: dm)
      have md: "rnd (- d) = - d" using rnd_minus[of d] dd by simp
      have e: "rnd (rnd (- d * u) * 6) = - w"
        using rnd_minus[of "d * u"] rnd_minus[of "m * 6"] by (simp add: w_def m_def)
      from ramp_pos2[OF d0 md u] show ?thesis unfolding e dm by simp
    qed
    note c = ramp_core[OF p q o pos neg, folded v_def]
    have V1: "fin (p + w) = Fin v" unfolding v_def using c(3) by (rule fin_Fin) simp_all
    have "fadd (Fin p) (fmul (fmul (fsub (Fin q) (Fin p)) (Fin u)) (Fin 6)) = Fin v"
      using D1 M1 W1 V1 by simp
    with c(1,2) show ?thesis by blast
  qed
qed

lemma below_sixth:
  assumes "rnd t = t" "0 \<le> t" "t < 6004799503160661 / 36028797018963968"
  shows "t \<le> 1/6 * (1 - 1/2 ^ 52)"
proof (cases "1/8 \<le> t")
  case True
  then have "2 powi (- 3) \<le> \<bar>t\<bar>" by (simp add: power_int_minus_divide)
  from double_grid[OF assms(1) this] obtain k :: int where k: "t = of_int k * 2 powi (- 3 - 52)"
    by auto
  then have k': "t = of_int k / 2 ^ 55" by (simp add: power_int_minus_divide)
  have "(of_int k :: rat) < of_int 6004799503160661" using assms(3) k' by (simp add: field_simps)
  then have "k < 6004799503160661" by (simp only: of_int_less_iff)
  then have "k \<le> 6004799503160660" by simp
  then have "(of_int k :: rat) \<le> of_int 6004799503160660" by (simp only: of_int_le_iff)
  then show ?thesis using k' by (simp add: field_simps)
next
  case False
  then show ?thesis by simp
qed

lemma hueToRgb_unit:
  assumes p: "0 \<le> p" "p \<le> 1" "rnd p = p" and q: "0 \<le> q" "q \<le> 1" and o: "p \<le> q \<or> 1/4 \<le> q"
    and t: "- 1 \<le> t" "t \<le> 2 powi 1020" "rnd t = t"
  shows "\<exists>v. hueToRgb (Fin p) (Fin q) (Fin t) = Fin v \<and> 0 \<le> v \<and> v \<le> 1"
proof -
  define t1 where "t1 = (if t < 0 then rnd (t + 1) else t)"
  define t2 where "t2 = (if 1 < t1 then rnd (t1 - 1) else t1)"
  define c6 :: rat where "c6 = 6004799503160661 / 36028797018963968"
  define c23 :: rat where "c23 = 6004799503160661 / 9007199254740992"
  have big: "(1::rat) \<le> 2 powi 1020" using power_int_increasing[of 0 1020 "2::rat"] by simp
  have T1: "(if t < 0 then fadd (Fin t) (Fin 1) else Fin t) = Fin t1" and t1b: "0 \<le> t1" "t1 \<le> 2 powi 1020"
    and t1d: "rnd t1 = t1"
  proof -
    show "(if t < 0 then fadd (Fin t) (Fin 1) else Fin t) = Fin t1"
    proof (cases "t < 0")
      case True
      then have "\<bar>t + 1\<bar> \<le> 2 powi 0" using t(1) by simp
      then have "fin (t + 1) = Fin (rnd (t + 1))" by (rule fin_Fin) simp_all
      then show ?thesis using True by (simp add: t1_def)
    next
      case False
      then show ?thesis by (simp add: t1_def)
    qed
    show "0 \<le> t1" using t(1) by (auto simp: t1_def intro!: rnd_nonneg)
    show "t1 \<le> 2 powi 1020"
    proof (cases "t < 0")
      case True
      then have "rnd (t + 1) \<le> 1" by (intro rnd_le) simp_all
      then show ?thesis using True big by (simp add: t1_def)
    next
      case False
      then show ?thesis using t(2) by (simp add: t1_def)
    qed
    show "rnd t1 = t1" using t(3) by (simp add: t1_def)
  qed
  have T2: "(if 1 < t1 then fsub (Fin t1) (Fin 1) else Fin t1) = Fin t2" and t2b: "0 \<le> t2"
    and t2d: "rnd t2 = t2"
  proof -
    show "(if 1 < t1 then fsub (Fin t1) (Fin 1) else Fin t1) = Fin t2"
    proof (cases "1 < t1")
      case True
      then have "\<bar>t1 - 1\<bar> \<le> 2 powi 1020" using t1b(2) by simp
      then have "fin (t1 - 1) = Fin (rnd (t1 - 1))" by (rule fin_Fin) simp_all
      then show ?thesis using True by (simp add: t2_def)
    next
      case False
      then show ?thesis by (simp add: t2_def)
    qed
    show "0 \<le> t2" using t1b(1) by (auto simp: t2_def intro!: rnd_nonneg)
    show "rnd t2 = t2" using t1d by (simp add: t2_def)
  qed
  have c6: "fdiv (Fin 1) (Fin 6) = Fin c6" using fin_sixth by (simp add: c6_def)
  have c23: "fdiv (Fin 2) (Fin 3) = Fin c23" using fin_two_thirds by (simp add: c23_def)
  have c12: "fdiv (Fin 1) (Fin 2) = Fin (1/2)" by simp
  have H: "hueToRgb (Fin p) (Fin q) (Fin t) =
      (if t2 < c6 then fadd (Fin p) (fmul (fmul (fsub (Fin q) (Fin p)) (Fin 6)) (Fin t2))
       else if t2 < 1/2 then Fin q
       else if t2 < c23 then fadd (Fin p) (fmul (fmul (fsub (Fin q) (Fin p)) (fsub (Fin c23) (Fin t2))) (Fin 6))
       else Fin p)"
    unfolding hueToRgb_def Let_def flt_Fin T1 T2 c6 c23 c12 by (rule refl)
  show ?thesis
  proof (cases "t2 < c6")
    case True
    then have "t2 \<le> 1/6 * (1 - 1/2 ^ 52)" using below_sixth[OF t2d t2b] by (simp add: c6_def)
    from ramp_unit(1)[OF p q o t2b this] True show ?thesis by (simp add: H)
  next
    case n1: False
    show ?thesis
    proof (cases "t2 < 1/2")
      case True
      then show ?thesis using n1 q by (simp add: H)
    next
      case n2: False
      show ?thesis
      proof (cases "t2 < c23")
        case True
        define u where "u = rnd (c23 - t2)"
        have "\<bar>c23 - t2\<bar> \<le> 2 powi 0" using True n2 by (simp add: c23_def)
        then have f: "fin (c23 - t2) = Fin u" unfolding u_def by (rule fin_Fin) simp_all
        have u0: "0 \<le> u" unfolding u_def using True by (intro rnd_nonneg) simp
        have "rnd (1501199875790165 / 9007199254740992) = 1501199875790165 / 9007199254740992"
          using rnd_exact[of 1501199875790165 "- 53"] by simp
        moreover have "c23 - t2 \<le> 1501199875790165 / 9007199254740992"
          using n2 by (simp add: c23_def)
        ultimately have "u \<le> 1501199875790165 / 9007199254740992"
          unfolding u_def by (intro rnd_le)
        then have u1: "u \<le> 1/6 * (1 - 1/2 ^ 52)" by simp
        from ramp_unit(2)[OF p q o u0 u1] True n1 n2 show ?thesis by (simp add: H f)
      next
        case False
        then show ?thesis using n1 n2 p by (simp add: H)
      qed
    qed
  qed
qed

subsection \<open>The three offsets of the hue\<close>

lemma hue_offsets:
  assumes "- 240 \<le> hv" "hv < 2 ^ 1024"
  shows "\<exists>tr tg tb. fadd (fdiv (Fin hv) (Fin 360)) (fdiv (Fin 1) (Fin 3)) = Fin tr \<and>
           fdiv (Fin hv) (Fin 360) = Fin tg \<and>
           fsub (fdiv (Fin hv) (Fin 360)) (fdiv (Fin 1) (Fin 3)) = Fin tb \<and>
           - 1 \<le> tr \<and> tr \<le> 2 powi 1020 \<and> rnd tr = tr \<and>
           - 1 \<le> tg \<and> tg \<le> 2 powi 1020 \<and> rnd tg = tg \<and>
           - 1 \<le> tb \<and> tb \<le> 2 powi 1020 \<and> rnd tb = tb"
proof -
  define c :: rat where "c = 6004799503160661 / 18014398509481984"
  define c23 :: rat where "c23 = 6004799503160661 / 9007199254740992"
  have c: "fdiv (Fin 1) (Fin 3) = Fin c" using fin_third by (simp add: c_def)
  have r1: "rnd (- 1) = - 1" using rnd_minus[of 1] by simp
  have up: "(2::rat) powi 1016 \<le> 2 powi 1017" "(2::rat) powi 1017 \<le> 2 powi 1020"
    by (intro power_int_increasing; simp)+
  have one: "(1::rat) \<le> 2 powi 1016" using power_int_increasing[of 0 1016 "2::rat"] by simp
  define tg where "tg = rnd (hv / 360)"
  have "hv / 360 \<le> 2 ^ 1024 / 2 ^ 8" using assms by (simp add: field_simps)
  also have "(2::rat) ^ 1024 / 2 ^ 8 = 2 powi (1024 - 8)" by (subst power_int_diff) simp_all
  finally have h: "hv / 360 \<le> 2 powi 1016" by simp
  have r23: "rnd (2/3) = c23" unfolding c23_def
    by (subst rnd_eval[where e = "- 1"]) (simp_all add: round_even_def Let_def)
  have hl: "- (2/3) \<le> hv / 360" using assms(1) by simp
  then have "- 1 \<le> hv / 360" by simp
  then have "\<bar>hv / 360\<bar> \<le> 2 powi 1016" using h one by (simp add: abs_le_iff)
  note G = fin_op[OF this, folded tg_def]
  have "rnd (- (2/3)) \<le> rnd (hv / 360)" using hl by (rule rnd_mono)
  then have g0: "- c23 \<le> tg" unfolding tg_def rnd_minus r23 .
  have g1: "tg \<le> 2 powi 1016" using G(2) by simp
  have p17: "(2::rat) powi 1017 = 2 * 2 powi 1016" using powi_step[of 1016] by simp
  define tr where "tr = rnd (tg + c)"
  have "\<bar>tg + c\<bar> \<le> 2 powi 1017" using g0 g1 one unfolding p17 by (simp add: c_def c23_def abs_le_iff)
  note R = fin_op[OF this, folded tr_def]
  have "- 1 \<le> tg + c" using g0 by (simp add: c_def c23_def)
  then have r0: "- 1 \<le> tr" unfolding tr_def using r1 by (rule rnd_ge)
  define tb where "tb = rnd (tg - c)"
  have "\<bar>tg - c\<bar> \<le> 2 powi 1017" using g0 g1 one unfolding p17 by (simp add: c_def c23_def abs_le_iff)
  note B = fin_op[OF this, folded tb_def]
  have "- 1 \<le> tg - c" using g0 by (simp add: c_def c23_def)
  then have b0: "- 1 \<le> tb" unfolding tb_def using r1 by (rule rnd_ge)
  have gm: "- 1 \<le> tg" using g0 by (simp add: c23_def)
  have "fadd (fdiv (Fin hv) (Fin 360)) (fdiv (Fin 1) (Fin 3)) = Fin tr" using G(1) R(1) by (simp add: c)
  moreover have "fdiv (Fin hv) (Fin 360) = Fin tg" using G(1) by simp
  moreover have "fsub (fdiv (Fin hv) (Fin 360)) (fdiv (Fin 1) (Fin 3)) = Fin tb"
    using G(1) B(1) by (simp add: c)
  moreover have "tr \<le> 2 powi 1020" "tg \<le> 2 powi 1020" "tb \<le> 2 powi 1020"
    using R(2) g1 B(2) up by linarith+
  moreover have "rnd tr = tr" "rnd tg = tg" "rnd tb = tb" by (simp_all add: tr_def tg_def tb_def)
  ultimately show ?thesis using r0 gm b0
    by (intro exI[of _ tr] exI[of _ tg] exI[of _ tb]) simp
qed

section \<open>Round trip through the hexadecimal form\<close>

text \<open>
  Claim C3.  For all integers \<open>r\<close>, \<open>g\<close>, \<open>b\<close> in \<open>[0, 255]\<close> and \<open>a = 1\<close>,
  \<open>fromHEX (toHEX (UColor r g b))\<close> is \<open>UColor r g b\<close> again, with every channel
  (\<open>r\<close>, \<open>g\<close>, \<open>b\<close> and \<open>a\<close>) exactly equal.
\<close>

theorem hex_roundtrip:
  fixes i j k :: nat
  assumes "i \<le> 255" "j \<le> 255" "k \<le> 255"
  shows "fromHEX (toHEX (new_UColor (Fin (of_nat i)) (Fin (of_nat j)) (Fin (of_nat k)) (Fin 1)))
         = new_UColor (Fin (of_nat i)) (Fin (of_nat j)) (Fin (of_nat k)) (Fin 1)"
proof -
  have d: "i div 16 < 16" "i mod 16 < 16" "j div 16 < 16" "j mod 16 < 16"
    "k div 16 < 16" "k mod 16 < 16" using assms by simp_all
  have h: "toHEX (new_UColor (Fin (of_nat i)) (Fin (of_nat j)) (Fin (of_nat k)) (Fin 1)) =
      [of_char CHR ''#'', digit_char (i div 16), digit_char (i mod 16), digit_char (j div 16),
       digit_char (j mod 16), digit_char (k div 16), digit_char (k mod 16)]"
    by (simp add: toHEX_def new_UColor_def decToHex_byte assms str_def)
  show ?thesis
    unfolding h
    by (simp add: fromHEX_def slice_def parseInt16_two d)
qed

theorem hex_roundtrip_witness:
  "(12::nat) \<le> 255 \<and> (34::nat) \<le> 255 \<and> (27::nat) \<le> 255 \<and>
   fromHEX (toHEX (new_UColor (Fin 12) (Fin 34) (Fin 27) (Fin 1)))
     = new_UColor (Fin 12) (Fin 34) (Fin 27) (Fin 1)"
  using hex_roundtrip[of 12 34 27] by simp

section \<open>Parsing \<open>rgb(...)\<close> and \<open>rgba(...)\<close> strings\<close>

text \<open>
  Claim C1 says that white space around a well-formed body does not change the result of
  \<open>fromRGBA\<close>.  The code trims the string, but takes the position of the opening
  parenthesis in the untrimmed string: every leading white space character moves the start
  of the slice one character to the right.  With one leading space the first field of
  \<open>rgb(1,2,3)\<close> is lost and \<open>r\<close> is read from the empty string, while the same body
  without the space gives \<open>r = 1\<close>.
\<close>

theorem fromRGBA_leading_space:
  "fromRGBA (str '' rgb(1,2,3)'') = new_UColor (Fin 0) (Fin 2) (Fin 3) (Fin 1) \<and>
   fromRGBA (str ''rgb(1,2,3)'') = new_UColor (Fin 1) (Fin 2) (Fin 3) (Fin 1)"
  by (simp add: fromRGBA_def str_defs num_defs truthy_def)

text \<open>
  Claim C2 says that, whenever the comma-split body of the input has a fourth field, the
  alpha of the result is the number that field converts to if that number is neither zero
  nor \<open>NaN\<close>, and \<open>1\<close> otherwise.  The body is what lies between the first \<open>(\<close> and the
  last character of the trimmed string.  The code takes the position of \<open>(\<close> in the
  untrimmed string, so with leading white space it does not split the body: for the input
  \<open>rgba(1,2,3,0.5)\<close> after two spaces the body is \<open>1,2,3,0.5\<close>, its fourth field is
  \<open>0.5\<close>, which converts to the number \<open>0.5\<close>, but the code splits \<open>2,3,0.5\<close>, finds no
  fourth field and returns \<open>a = 1\<close> (and \<open>r = 2\<close>, \<open>g = 3\<close>, \<open>b = 0.5\<close>).  Without the
  two spaces the same body gives \<open>a = 0.5\<close>.  The two literal cases of the claim hold:
  \<open>rgba(0,0,0,0)\<close> gives \<open>a = 1\<close>, and \<open>rgb(255,161,12,0.8)\<close> gives the colour
  \<open>(255, 161, 12, 0.8)\<close>, where \<open>0.8\<close> is the binary64 number \<open>3602879701896397 / 2 ^ 52\<close>.
\<close>

theorem fromRGBA_alpha_shifted:
  "split (slice (trim (str ''  rgba(1,2,3,0.5)''))
          (indexOf (trim (str ''  rgba(1,2,3,0.5)'')) (of_char CHR ''('') + 1) (- 1))
     (of_char CHR '','') = [str ''1'', str ''2'', str ''3'', str ''0.5''] \<and>
   Number (Some (str ''0.5'')) = Fin (1/2) \<and>
   fromRGBA (str ''  rgba(1,2,3,0.5)'') = new_UColor (Fin 2) (Fin 3) (Fin (1/2)) (Fin 1) \<and>
   fromRGBA (str ''rgba(1,2,3,0.5)'') = new_UColor (Fin 1) (Fin 2) (Fin 3) (Fin (1/2)) \<and>
   a (fromRGBA (str ''rgba(0,0,0,0)'')) = Fin 1 \<and>
   fromRGBA (str ''rgb(255,161,12,0.8)'') = new_UColor (Fin 255) (Fin 161) (Fin 12) (fin (8/10)) \<and>
   fin (8/10) = Fin (3602879701896397 / 2 ^ 52)"
proof (intro conjI)
  show "split (slice (trim (str ''  rgba(1,2,3,0.5)''))
          (indexOf (trim (str ''  rgba(1,2,3,0.5)'')) (of_char CHR ''('') + 1) (- 1))
     (of_char CHR '','') = [str ''1'', str ''2'', str ''3'', str ''0.5'']"
    by (simp add: str_defs)
  show "Number (Some (str ''0.5'')) = Fin (1/2)"
    by (simp add: str_defs num_defs)
  show "fromRGBA (str ''  rgba(1,2,3,0.5)'') = new_UColor (Fin 2) (Fin 3) (Fin (1/2)) (Fin 1)"
    by (simp add: fromRGBA_def str_defs num_defs truthy_def)
  show "fromRGBA (str ''rgba(1,2,3,0.5)'') = new_UColor (Fin 1) (Fin 2) (Fin 3) (Fin (1/2))"
    by (simp add: fromRGBA_def str_defs num_defs truthy_def)
  show "a (fromRGBA (str ''rgba(0,0,0,0)'')) = Fin 1"
    by (simp add: fromRGBA_def str_defs num_defs truthy_def new_UColor_def)
  show "fromRGBA (str ''rgb(255,161,12,0.8)'') = new_UColor (Fin 255) (Fin 161) (Fin 12) (fin (8/10))"
    using fin_8_10 by (simp add: fromRGBA_def str_defs num_defs truthy_def)
  show "fin (8/10) = Fin (3602879701896397 / 2 ^ 52)"
    using fin_8_10 by simp
qed

section \<open>The literal scenario \<open>#ff340031\<close>\<close>

text \<open>
  Claim C4.  \<open>fromHEX\<close> of \<open>#ff340031\<close> is the colour with \<open>r = 255\<close>, \<open>g = 52\<close>,
  \<open>b = 0\<close> and \<open>a = 0.192\<close> (\<open>0x31 / 255\<close> to three decimal places; \<open>0.192\<close> is the
  binary64 number nearest to \<open>192 / 1000\<close>), and \<open>toHEX\<close> of that colour is the string
  \<open>#ff340031\<close> again.
\<close>

theorem hex_literal_scenario:
  "fromHEX (str ''#ff340031'') = new_UColor (Fin 255) (Fin 52) (Fin 0) (fin (192/1000)) \<and>
   toHEX (fromHEX (str ''#ff340031'')) = str ''#ff340031''"
proof -
  have 1: "fromHEX (str ''#ff340031'') = new_UColor (Fin 255) (Fin 52) (Fin 0) (fin (192/1000))"
    using fin_49_255
    by (simp add: fromHEX_def str_defs parseInt16_def toFixed3_def padStart_def
        nat_to_string.simps digit_char_def parseFloat_def)
  have m: "fin (3458764513820541 / 18014398509481984 * 255) = Fin (6890507429876859 / 140737488355328)"
    by (subst fin_eval[where e = 5]) (simp_all add: round_even_def Let_def)
  have 2: "toHEX (new_UColor (Fin 255) (Fin 52) (Fin 0) (fin (192/1000))) = str ''#ff340031''"
    using m fin_192_1000
    by (simp add: toHEX_def new_UColor_def decToHex_def toString16_def padStart_def
        nat_to_string.simps digit_char_def str_def Let_def)
  from 1 2 show ?thesis by simp
qed

section \<open>The contrast colour\<close>

text \<open>
  Claim C5.  For every colour with integer channels \<open>r\<close>, \<open>g\<close>, \<open>b\<close> in \<open>[0, 255]\<close>,
  applying \<open>getContrastColor\<close> twice gives a colour whose \<open>r\<close>, \<open>g\<close>, \<open>b\<close> each differ
  from the original channel by at most \<open>1\<close>, and whose \<open>a\<close> is the original \<open>a\<close>.  In
  binary64 arithmetic the result is the original colour exactly: one application gives,
  on every channel \<open>x\<close>, the integer \<open>max + min - x\<close>, where \<open>max\<close> and \<open>min\<close> are the
  largest and the smallest of the three channels, and the second application undoes it.
\<close>

theorem contrast_involution:
  fixes R G B :: nat
  assumes "R \<le> 255" "G \<le> 255" "B \<le> 255"
  shows "getContrastColor (getContrastColor
             (new_UColor (Fin (of_nat R)) (Fin (of_nat G)) (Fin (of_nat B)) al))
           = new_UColor (Fin (of_nat R)) (Fin (of_nat G)) (Fin (of_nat B)) al \<and>
         (\<exists>i j k :: int. getContrastColor (getContrastColor
             (new_UColor (Fin (of_nat R)) (Fin (of_nat G)) (Fin (of_nat B)) al))
           = new_UColor (Fin (of_int i)) (Fin (of_int j)) (Fin (of_int k)) al \<and>
           \<bar>i - int R\<bar> \<le> 1 \<and> \<bar>j - int G\<bar> \<le> 1 \<and> \<bar>k - int B\<bar> \<le> 1) \<and>
         getContrastColor (new_UColor (Fin (of_nat R)) (Fin (of_nat G)) (Fin (of_nat B)) al)
           = new_UColor (Fin (of_nat (max (max R G) B + min (min R G) B - R)))
                        (Fin (of_nat (max (max R G) B + min (min R G) B - G)))
                        (Fin (of_nat (max (max R G) B + min (min R G) B - B))) al"
proof -
  define M where "M = max (max R G) B"
  define m where "m = min (min R G) B"
  note ca = complement_again[of R G B, folded M_def m_def]
  have "M \<le> 255" using assms by (simp add: M_def)
  then have b: "M + m - R \<le> 255" "M + m - G \<le> 255" "M + m - B \<le> 255"
    using ca(6-8) by simp_all
  have c1: "getContrastColor (new_UColor (Fin (of_nat R)) (Fin (of_nat G)) (Fin (of_nat B)) al)
      = new_UColor (Fin (of_nat (M + m - R))) (Fin (of_nat (M + m - G))) (Fin (of_nat (M + m - B))) al"
    unfolding M_def m_def by (rule contrast_value[OF assms])
  have "getContrastColor
      (new_UColor (Fin (of_nat (M + m - R))) (Fin (of_nat (M + m - G))) (Fin (of_nat (M + m - B))) al)
      = new_UColor
          (Fin (of_nat (max (max (M + m - R) (M + m - G)) (M + m - B) +
                        min (min (M + m - R) (M + m - G)) (M + m - B) - (M + m - R))))
          (Fin (of_nat (max (max (M + m - R) (M + m - G)) (M + m - B) +
                        min (min (M + m - R) (M + m - G)) (M + m - B) - (M + m - G))))
          (Fin (of_nat (max (max (M + m - R) (M + m - G)) (M + m - B) +
                        min (min (M + m - R) (M + m - G)) (M + m - B) - (M + m - B)))) al"
    by (rule contrast_value[OF b])
  then have c2: "getContrastColor
      (new_UColor (Fin (of_nat (M + m - R))) (Fin (of_nat (M + m - G))) (Fin (of_nat (M + m - B))) al)
      = new_UColor (Fin (of_nat R)) (Fin (of_nat G)) (Fin (of_nat B)) al"
    by (simp only: ca(1-5))
  have two: "getContrastColor (getContrastColor
             (new_UColor (Fin (of_nat R)) (Fin (of_nat G)) (Fin (of_nat B)) al))
           = new_UColor (Fin (of_nat R)) (Fin (of_nat G)) (Fin (of_nat B)) al"
    by (simp only: c1 c2)
  have ex: "\<exists>i j k :: int. getContrastColor (getContrastColor
             (new_UColor (Fin (of_nat R)) (Fin (of_nat G)) (Fin (of_nat B)) al))
           = new_UColor (Fin (of_int i)) (Fin (of_int j)) (Fin (of_int k)) al \<and>
           \<bar>i - int R\<bar> \<le> 1 \<and> \<bar>j - int G\<bar> \<le> 1 \<and> \<bar>k - int B\<bar> \<le> 1"
    apply (rule exI[of _ "int R"], rule exI[of _ "int G"], rule exI[of _ "int B"])
    using two by simp
  show ?thesis
  proof (intro conjI)
    show "getContrastColor (getContrastColor
             (new_UColor (Fin (of_nat R)) (Fin (of_nat G)) (Fin (of_nat B)) al))
           = new_UColor (Fin (of_nat R)) (Fin (of_nat G)) (Fin (of_nat B)) al" by (rule two)
    show "\<exists>i j k :: int. getContrastColor (getContrastColor
             (new_UColor (Fin (of_nat R)) (Fin (of_nat G)) (Fin (of_nat B)) al))
           = new_UColor (Fin (of_int i)) (Fin (of_int j)) (Fin (of_int k)) al \<and>
           \<bar>i - int R\<bar> \<le> 1 \<and> \<bar>j - int G\<bar> \<le> 1 \<and> \<bar>k - int B\<bar> \<le> 1" by (rule ex)
    show "getContrastColor (new_UColor (Fin (of_nat R)) (Fin (of_nat G)) (Fin (of_nat B)) al)
           = new_UColor (Fin (of_nat (max (max R G) B + min (min R G) B - R)))
                        (Fin (of_nat (max (max R G) B + min (min R G) B - G)))
                        (Fin (of_nat (max (max R G) B + min (min R G) B - B))) al"
      by (rule contrast_value[OF assms])
  qed
qed

theorem contrast_involution_witness:
  "(255::nat) \<le> 255 \<and> (52::nat) \<le> 255 \<and> (0::nat) \<le> 255 \<and>
   getContrastColor (new_UColor (Fin 255) (Fin 52) (Fin 0) (Fin (1/2)))
     = new_UColor (Fin 0) (Fin 203) (Fin 255) (Fin (1/2)) \<and>
   getContrastColor (getContrastColor (new_UColor (Fin 255) (Fin 52) (Fin 0) (Fin (1/2))))
     = new_UColor (Fin 255) (Fin 52) (Fin 0) (Fin (1/2))"
  using contrast_involution[of 255 52 0 "Fin (1/2)", THEN conjunct1]
    contrast_involution[of 255 52 0 "Fin (1/2)", THEN conjunct2, THEN conjunct2]
  by simp


section \<open>The triadic palette\<close>

text \<open>
  Claim C6.  For every colour \<open>c\<close> with integer channels in \<open>[0, 255]\<close>, \<open>getPalette\<close>
  returns a list of three colours: \<open>c\<close> itself, then the colours that \<open>hslToRgb\<close> gives for
  the hue of \<open>c\<close> plus \<open>120\<close> and plus \<open>240\<close> degrees modulo \<open>360\<close>, at the saturation
  and lightness of \<open>c\<close>; all three have the alpha of \<open>c\<close>.  The hue \<open>h\<close> of \<open>c\<close> lies in
  \<open>[0, 360)\<close>, so the remainder operator of the code is the modulo of the claim: the
  rotated hue is the binary64 sum \<open>h + 120\<close> (or \<open>h + 240\<close>) minus the multiple of \<open>360\<close>
  below it.  In binary64 arithmetic the two colours are the cyclic shifts \<open>(b, r, g)\<close> and
  \<open>(g, b, r)\<close> of the channels of \<open>c\<close>.
\<close>

theorem palette_structure:
  fixes R G B :: nat
  assumes "R \<le> 255" "G \<le> 255" "B \<le> 255"
  shows "(let c = new_UColor (Fin (of_nat R)) (Fin (of_nat G)) (Fin (of_nat B)) al in
          getPalette c = [c, new_UColor (Fin (of_nat B)) (Fin (of_nat R)) (Fin (of_nat G)) al,
                             new_UColor (Fin (of_nat G)) (Fin (of_nat B)) (Fin (of_nat R)) al] \<and>
          map a (getPalette c) = [al, al, al] \<and>
          (\<exists>hv s l. rgbToHsl c = (Fin hv, s, l) \<and> 0 \<le> hv \<and> hv < 360 \<and>
             (let h2 = rnd (hv + 120) - 360 * of_int \<lfloor>rnd (hv + 120) / 360\<rfloor>;
                  h3 = rnd (hv + 240) - 360 * of_int \<lfloor>rnd (hv + 240) / 360\<rfloor>
              in 0 \<le> h2 \<and> h2 < 360 \<and> 0 \<le> h3 \<and> h3 < 360 \<and>
                 getPalette c =
                   [c, (case hslToRgb (Fin h2) s l of (r', g', b') \<Rightarrow> new_UColor r' g' b' al),
                       (case hslToRgb (Fin h3) s l of (r', g', b') \<Rightarrow> new_UColor r' g' b' al)])))"
proof -
  define c where "c = new_UColor (Fin (of_nat R)) (Fin (of_nat G)) (Fin (of_nat B)) al"
  from palette_value[OF assms, of al, folded c_def] obtain hv s l h2 h3 where
    h: "rgbToHsl c = (Fin hv, s, l)" "0 \<le> hv" "hv < 360"
    and m2: "fmod (fadd (Fin hv) (Fin 120)) (Fin 360) = Fin h2" "0 \<le> h2" "h2 < 360"
      "h2 = rnd (hv + 120) - 360 * of_int \<lfloor>rnd (hv + 120) / 360\<rfloor>"
    and m3: "fmod (fadd (Fin hv) (Fin 240)) (Fin 360) = Fin h3" "0 \<le> h3" "h3 < 360"
      "h3 = rnd (hv + 240) - 360 * of_int \<lfloor>rnd (hv + 240) / 360\<rfloor>"
    and c2: "hslToRgb (Fin h2) s l = (Fin (of_nat B), Fin (of_nat R), Fin (of_nat G))"
    and c3: "hslToRgb (Fin h3) s l = (Fin (of_nat G), Fin (of_nat B), Fin (of_nat R))"
    by blast
  have ac: "a c = al" by (simp add: c_def new_UColor_def)
  have p: "getPalette c =
      [c, (case hslToRgb (Fin h2) s l of (r', g', b') \<Rightarrow> new_UColor r' g' b' al),
          (case hslToRgb (Fin h3) s l of (r', g', b') \<Rightarrow> new_UColor r' g' b' al)]"
    by (simp only: getPalette_def h(1) case_prod_conv Let_def m2(1) m3(1) ac)
       (simp add: case_prod_beta)
  have v: "getPalette c = [c, new_UColor (Fin (of_nat B)) (Fin (of_nat R)) (Fin (of_nat G)) al,
                             new_UColor (Fin (of_nat G)) (Fin (of_nat B)) (Fin (of_nat R)) al]"
    unfolding p by (simp only: c2 c3 case_prod_conv)
  have al: "map a (getPalette c) = [al, al, al]"
    unfolding v by (simp add: ac new_UColor_def)
  have st: "rgbToHsl c = (Fin hv, s, l) \<and> 0 \<le> hv \<and> hv < 360 \<and>
             (let h2 = rnd (hv + 120) - 360 * of_int \<lfloor>rnd (hv + 120) / 360\<rfloor>;
                  h3 = rnd (hv + 240) - 360 * of_int \<lfloor>rnd (hv + 240) / 360\<rfloor>
              in 0 \<le> h2 \<and> h2 < 360 \<and> 0 \<le> h3 \<and> h3 < 360 \<and>
                 getPalette c =
                   [c, (case hslToRgb (Fin h2) s l of (r', g', b') \<Rightarrow> new_UColor r' g' b' al),
                       (case hslToRgb (Fin h3) s l of (r', g', b') \<Rightarrow> new_UColor r' g' b' al)])"
    unfolding Let_def m2(4)[symmetric] m3(4)[symmetric]
    using h p m2(2,3) m3(2,3) by (intro conjI)
  have ex: "\<exists>hv s l. rgbToHsl c = (Fin hv, s, l) \<and> 0 \<le> hv \<and> hv < 360 \<and>
             (let h2 = rnd (hv + 120) - 360 * of_int \<lfloor>rnd (hv + 120) / 360\<rfloor>;
                  h3 = rnd (hv + 240) - 360 * of_int \<lfloor>rnd (hv + 240) / 360\<rfloor>
              in 0 \<le> h2 \<and> h2 < 360 \<and> 0 \<le> h3 \<and> h3 < 360 \<and>
                 getPalette c =
                   [c, (case hslToRgb (Fin h2) s l of (r', g', b') \<Rightarrow> new_UColor r' g' b' al),
                       (case hslToRgb (Fin h3) s l of (r', g', b') \<Rightarrow> new_UColor r' g' b' al)])"
    by (rule exI[of _ hv], rule exI[of _ s], rule exI[of _ l]) (rule st)
  show ?thesis
    unfolding Let_def c_def[symmetric]
    using v al ex[unfolded Let_def] by (intro conjI)
qed

theorem palette_structure_witness:
  "(255::nat) \<le> 255 \<and> (52::nat) \<le> 255 \<and> (0::nat) \<le> 255 \<and>
   getPalette (new_UColor (Fin 255) (Fin 52) (Fin 0) (Fin (1/2))) =
     [new_UColor (Fin 255) (Fin 52) (Fin 0) (Fin (1/2)),
      new_UColor (Fin 0) (Fin 255) (Fin 52) (Fin (1/2)),
      new_UColor (Fin 52) (Fin 0) (Fin 255) (Fin (1/2))]"
  using palette_structure[of 255 52 0 "Fin (1/2)", unfolded Let_def, THEN conjunct1]
  by simp

section \<open>Grayscale\<close>

text \<open>
  Claim C7 says that the grayscale operation is idempotent for every colour, whatever its
  channels.  On binary64 numbers this fails for large channels: the weights \<open>0.299\<close>,
  \<open>0.587\<close>, \<open>0.114\<close> do not add up to \<open>1\<close> exactly and each product and sum is
  rounded, so from \<open>2 ^ 53\<close> the first application gives \<open>2 ^ 53 - 1\<close> and the second
  \<open>2 ^ 53 - 2\<close>.
\<close>

theorem grayscale_not_idempotent:
  "etGrayScale (etGrayScale (new_UColor (Fin (2 ^ 53)) (Fin (2 ^ 53)) (Fin (2 ^ 53)) (Fin 1)))
     \<noteq> etGrayScale (new_UColor (Fin (2 ^ 53)) (Fin (2 ^ 53)) (Fin (2 ^ 53)) (Fin 1))"
  by (simp only: gray_first gray_second) (simp add: new_UColor_def)



text \<open>
  Claim C7, amended.  For every colour whose channels are finite and at most \<open>2 ^ 40\<close> in
  absolute value (in particular for every valid channel in \<open>[0, 255]\<close>), applying the
  grayscale operation twice gives the same colour as applying it once, where one application
  computes \<open>gray = round (0.299 * r + 0.587 * g + 0.114 * b)\<close> and returns a new colour with
  \<open>r = g = b = gray\<close> and the alpha unchanged.
\<close>

theorem grayscale_idempotent:
  assumes "\<bar>x\<bar> \<le> 2 ^ 40" "\<bar>y\<bar> \<le> 2 ^ 40" "\<bar>z\<bar> \<le> 2 ^ 40"
  shows "etGrayScale (etGrayScale (new_UColor (Fin x) (Fin y) (Fin z) al))
           = etGrayScale (new_UColor (Fin x) (Fin y) (Fin z) al) \<and>
         etGrayScale (new_UColor (Fin x) (Fin y) (Fin z) al)
           = (let gray = Math_round (fadd (fadd (fmul (Fin x) (fin (299/1000)))
                                               (fmul (Fin y) (fin (587/1000))))
                                         (fmul (Fin z) (fin (114/1000))))
              in new_UColor gray gray gray al)"
proof -
  define N where "N = \<lfloor>luma x y z + 1/2\<rfloor>"
  have bx: "\<bar>x\<bar> \<le> 2 powi 40" "\<bar>y\<bar> \<le> 2 powi 40" "\<bar>z\<bar> \<le> 2 powi 40"
    using assms by simp_all
  have 1: "etGrayScale (new_UColor (Fin x) (Fin y) (Fin z) al) =
      new_UColor (Fin (of_int N)) (Fin (of_int N)) (Fin (of_int N)) al"
    unfolding N_def using bx by (rule luma_bounds(1)) simp_all
  have "\<bar>luma x y z\<bar> \<le> 4 * 2 powi 40" using bx by (rule luma_bounds(2)) simp_all
  then have lb: "luma x y z \<le> 2 ^ 42" "- (2 ^ 42) \<le> luma x y z"
    by (simp_all add: abs_le_iff)
  have "luma x y z + 1/2 < of_int (2 ^ 42 + 1)" using lb(1) by simp
  then have "N < 2 ^ 42 + 1" unfolding N_def by (simp only: floor_less_iff)
  moreover have "of_int (- (2 ^ 42)) \<le> luma x y z + 1/2" using lb(2) by simp
  then have "- (2 ^ 42) \<le> N" unfolding N_def by (simp only: le_floor_iff)
  ultimately have "\<bar>N\<bar> \<le> 2 ^ 42" by simp
  then have "\<bar>rat_of_int N\<bar> \<le> of_int (2 ^ 42)"
    by (simp only: of_int_abs[symmetric] of_int_le_iff)
  then have bn: "\<bar>rat_of_int N\<bar> \<le> 2 powi 42" by simp
  have 2: "etGrayScale (new_UColor (Fin (of_int N)) (Fin (of_int N)) (Fin (of_int N)) al) =
      new_UColor (Fin (of_int \<lfloor>luma (of_int N) (of_int N) (of_int N) + 1/2\<rfloor>))
        (Fin (of_int \<lfloor>luma (of_int N) (of_int N) (of_int N) + 1/2\<rfloor>))
        (Fin (of_int \<lfloor>luma (of_int N) (of_int N) (of_int N) + 1/2\<rfloor>)) al"
    using bn bn bn by (rule luma_bounds(1)) simp_all
  have e: "\<bar>luma (of_int N) (of_int N) (of_int N) -
         (of_int N * (5386305154335113 / 18014398509481984) +
          of_int N * (2643612981266481 / 4503599627370496) +
          of_int N * (8214565720323785 / 72057594037927936))\<bar> \<le> 9 * 2 powi (42 - 53)"
    using bn bn bn by (rule luma_bounds(3)) simp_all
  have k: "rat_of_int N * (5386305154335113 / 18014398509481984) +
          of_int N * (2643612981266481 / 4503599627370496) +
          of_int N * (8214565720323785 / 72057594037927936)
          = of_int N - of_int N * (3 / 72057594037927936)"
    by (simp add: algebra_simps)
  have "\<bar>rat_of_int N * (3 / 72057594037927936)\<bar> \<le> 2 powi 42 * (3 / 72057594037927936)"
    using bn by (simp add: abs_mult)
  then have d: "\<bar>(rat_of_int N - of_int N * (3 / 72057594037927936)) - of_int N\<bar>
      \<le> 2 powi 42 * (3 / 72057594037927936)"
    by simp
  have "\<bar>luma (of_int N) (of_int N) (of_int N) - of_int N\<bar>
      \<le> 9 * 2 powi (42 - 53) + 2 powi 42 * (3 / 72057594037927936)"
    using e[unfolded k] d by (rule abs_tri)
  also have "\<dots> < 1/2" by simp
  finally have "\<lfloor>luma (of_int N) (of_int N) (of_int N) + 1/2\<rfloor> = N" by (rule round_near)
  with 1 2 show ?thesis by (simp add: Let_def etGrayScale_def new_UColor_def)
qed


theorem grayscale_idempotent_witness:
  "\<bar>12::rat\<bar> \<le> 2 ^ 40 \<and> \<bar>34::rat\<bar> \<le> 2 ^ 40 \<and> \<bar>27::rat\<bar> \<le> 2 ^ 40 \<and>
   etGrayScale (etGrayScale (new_UColor (Fin 12) (Fin 34) (Fin 27) (Fin 1)))
     = etGrayScale (new_UColor (Fin 12) (Fin 34) (Fin 27) (Fin 1))"
  using grayscale_idempotent[of 12 34 27 "Fin 1", THEN conjunct1] by simp

section \<open>Achromatic colours\<close>

text \<open>
  Claim C8.  For an achromatic colour with integer channels \<open>r = g = b = n\<close> in
  \<open>[0, 255]\<close>, \<open>rgbToHsl\<close> returns \<open>h = 0\<close> and \<open>s = 0\<close> (with \<open>l\<close> the number
  \<open>n / 255\<close>); \<open>hslToRgb\<close> of that triple gives \<open>r = g = b = round (l * 255)\<close>, and this
  is the original channel value \<open>n\<close>.
\<close>

theorem achromatic_fixed_point:
  fixes n :: nat
  assumes "n \<le> 255"
  shows "rgbToHsl (new_UColor (Fin (of_nat n)) (Fin (of_nat n)) (Fin (of_nat n)) al)
           = (Fin 0, Fin 0, fin (of_nat n / 255)) \<and>
         hslToRgb (Fin 0) (Fin 0) (fin (of_nat n / 255))
           = (Math_round (fmul (fin (of_nat n / 255)) (Fin 255)),
              Math_round (fmul (fin (of_nat n / 255)) (Fin 255)),
              Math_round (fmul (fin (of_nat n / 255)) (Fin 255))) \<and>
         Math_round (fmul (fin (of_nat n / 255)) (Fin 255)) = Fin (of_nat n)"
proof -
  define x where "x = rnd (rat_of_nat n / 255)"
  note g = gray_unit[OF assms, folded x_def]
  have "\<bar>2 * x\<bar> \<le> 2 powi 1" using g(2,3) by simp
  then have "fin (2 * x) = Fin (rnd (2 * x))" by (rule fin_Fin) simp_all
  then have s: "fin (2 * x) = Fin (2 * x)" using rnd_rep_double[OF g(5)] by simp
  have "\<bar>x\<bar> \<le> 2 powi 0" using g(2,3) by simp
  then have "fin x = Fin (rnd x)" by (rule fin_Fin) simp_all
  then have h: "fin x = Fin x" using g(5) by simp
  have 1: "rgbToHsl (new_UColor (Fin (of_nat n)) (Fin (of_nat n)) (Fin (of_nat n)) al)
           = (Fin 0, Fin 0, fin (of_nat n / 255))"
    by (simp add: rgbToHsl_def new_UColor_def g(1) s h Let_def)
  have 2: "hslToRgb (Fin 0) (Fin 0) (fin (of_nat n / 255))
           = (Math_round (fmul (fin (of_nat n / 255)) (Fin 255)),
              Math_round (fmul (fin (of_nat n / 255)) (Fin 255)),
              Math_round (fmul (fin (of_nat n / 255)) (Fin 255)))"
    by (simp add: hslToRgb_def g(1))
  from 1 2 round_back[OF assms] show ?thesis by simp
qed

theorem achromatic_fixed_point_witness:
  "(128::nat) \<le> 255 \<and>
   rgbToHsl (new_UColor (Fin 128) (Fin 128) (Fin 128) (Fin 1)) = (Fin 0, Fin 0, fin (128 / 255)) \<and>
   hslToRgb (Fin 0) (Fin 0) (fin (128 / 255)) = (Fin 128, Fin 128, Fin 128)"
  using achromatic_fixed_point[of 128 "Fin 1"] by simp

section \<open>Channels computed from HSL\<close>

text \<open>
  Claim C9 says that \<open>hslToRgb\<close> returns integers in \<open>[0, 255]\<close> for every real hue, the
  value of the helper \<open>hueToRgb\<close> lying between \<open>p\<close> and \<open>q\<close>, with
  \<open>0 \<le> p \<le> q \<le> 1\<close>.  Two parts of it fail.  The helper wraps its argument once only,
  so a hue below \<open>-240\<close> degrees leaves a negative offset: for \<open>h = -720\<close>, \<open>s = 1\<close>,
  \<open>l = 0.5\<close> the offset of the green channel is \<open>-2\<close>, it is wrapped to \<open>-1\<close>, the helper
  returns \<open>p + (q - p) * 6 * (-1) = -6\<close>, and the green channel is \<open>-1530\<close>.  And in
  binary64 arithmetic \<open>p \<le> q\<close> can fail in the last place: for \<open>s = 2 ^ -53\<close> and
  \<open>l = 1\<close> the code computes \<open>q = 1 - 2 ^ -53\<close> and \<open>p = 1\<close>.
\<close>

theorem hslToRgb_negative_hue:
  "fst (snd (hslToRgb (Fin (- 720)) (Fin 1) (Fin (1/2)))) = Fin (- 1530) \<and>
   (let q = (if flt (Fin 1) (Fin (1/2)) then fmul (Fin 1) (fadd (Fin 1) (Fin (1 / 2 ^ 53)))
             else fsub (fadd (Fin 1) (Fin (1 / 2 ^ 53))) (fmul (Fin 1) (Fin (1 / 2 ^ 53))));
        p = fsub (fmul (Fin 2) (Fin 1)) q
    in q = Fin (1 - 1 / 2 ^ 53) \<and> p = Fin 1 \<and> flt q p)"
proof -
  have "hueToRgb (Fin 0) (Fin 1) (Fin (- 2)) = Fin (- 6)"
    using fin_sixth by (simp add: hueToRgb_def Let_def)
  then have 1: "fst (snd (hslToRgb (Fin (- 720)) (Fin 1) (Fin (1/2)))) = Fin (- 1530)"
    using fin_3_2 by (simp add: hslToRgb_green Let_def)
  have a: "fin (1 + 1 / 2 ^ 53) = Fin 1"
    by (subst fin_eval[where e = 0]) (simp_all add: round_even_def Let_def)
  have b: "fin (1 / 2 ^ 53) = Fin (1 / 2 ^ 53)"
    by (subst fin_eval[where e = "- 53"]) (simp_all add: round_even_def Let_def)
  have c: "fin (1 - 1 / 2 ^ 53) = Fin (1 - 1 / 2 ^ 53)"
    by (subst fin_eval[where e = "- 1"]) (simp_all add: round_even_def Let_def)
  have d: "fin (2 - (1 - 1 / 2 ^ 53)) = Fin 1"
    by (subst fin_eval[where e = 0]) (simp_all add: round_even_def Let_def)
  have 2: "(let q = (if flt (Fin 1) (Fin (1/2)) then fmul (Fin 1) (fadd (Fin 1) (Fin (1 / 2 ^ 53)))
             else fsub (fadd (Fin 1) (Fin (1 / 2 ^ 53))) (fmul (Fin 1) (Fin (1 / 2 ^ 53))));
        p = fsub (fmul (Fin 2) (Fin 1)) q
    in q = Fin (1 - 1 / 2 ^ 53) \<and> p = Fin 1 \<and> flt q p)"
    unfolding Let_def using a b c d by simp
  from 1 2 show ?thesis by (rule conjI)
qed

text \<open>
  Claim C9, amended.  For every hue \<open>h \<ge> -240\<close> (in particular every hue in \<open>[0, 360)\<close>,
  the only ones the program itself passes) and all binary64 numbers \<open>s\<close> and \<open>l\<close> in
  \<open>[0, 1]\<close>, \<open>hslToRgb h s l\<close> returns integers \<open>r\<close>, \<open>g\<close>, \<open>b\<close> in \<open>[0, 255]\<close>.  The
  numbers \<open>p\<close> and \<open>q\<close> lie in \<open>[0, 1]\<close>, and so do the three values of the helper
  \<open>hueToRgb\<close>, so scaling by \<open>255\<close> and rounding stays in the channel range.  (A number
  \<open>x\<close> is a binary64 number when \<open>rnd x = x\<close>.)
\<close>

theorem hslToRgb_range:
  assumes "- 240 \<le> hv" "hv < 2 ^ 1024" "0 \<le> sv" "sv \<le> 1" "rnd sv = sv"
    "0 \<le> lv" "lv \<le> 1" "rnd lv = lv"
  shows "(\<exists>i j k. hslToRgb (Fin hv) (Fin sv) (Fin lv) = (Fin (of_int i), Fin (of_int j), Fin (of_int k)) \<and>
           0 \<le> i \<and> i \<le> 255 \<and> 0 \<le> j \<and> j \<le> 255 \<and> 0 \<le> k \<and> k \<le> 255) \<and>
         (let q = (if flt (Fin lv) (Fin (1/2)) then fmul (Fin lv) (fadd (Fin 1) (Fin sv))
                   else fsub (fadd (Fin lv) (Fin sv)) (fmul (Fin lv) (Fin sv)));
              p = fsub (fmul (Fin 2) (Fin lv)) q
          in \<exists>pv qv vr vg vb.
               p = Fin pv \<and> q = Fin qv \<and> 0 \<le> pv \<and> pv \<le> 1 \<and> 0 \<le> qv \<and> qv \<le> 1 \<and>
               hueToRgb p q (fadd (fdiv (Fin hv) (Fin 360)) (fdiv (Fin 1) (Fin 3))) = Fin vr \<and>
               hueToRgb p q (fdiv (Fin hv) (Fin 360)) = Fin vg \<and>
               hueToRgb p q (fsub (fdiv (Fin hv) (Fin 360)) (fdiv (Fin 1) (Fin 3))) = Fin vb \<and>
               0 \<le> vr \<and> vr \<le> 1 \<and> 0 \<le> vg \<and> vg \<le> 1 \<and> 0 \<le> vb \<and> vb \<le> 1)"
proof -
  from pq_unit[OF assms(3-8)] obtain q p where
    q: "(if flt (Fin lv) (Fin (1/2)) then fmul (Fin lv) (fadd (Fin 1) (Fin sv))
         else fsub (fadd (Fin lv) (Fin sv)) (fmul (Fin lv) (Fin sv))) = Fin q"
    and p: "fsub (fmul (Fin 2) (Fin lv)) (Fin q) = Fin p"
    and pr: "0 \<le> p" "p \<le> 1" "rnd p = p" and qr: "0 \<le> q" "q \<le> 1" and o: "p \<le> q \<or> 1/4 \<le> q"
    by blast
  from hue_offsets[OF assms(1,2)] obtain tr tg tb where
    t: "fadd (fdiv (Fin hv) (Fin 360)) (fdiv (Fin 1) (Fin 3)) = Fin tr"
       "fdiv (Fin hv) (Fin 360) = Fin tg"
       "fsub (fdiv (Fin hv) (Fin 360)) (fdiv (Fin 1) (Fin 3)) = Fin tb"
    and tr: "- 1 \<le> tr" "tr \<le> 2 powi 1020" "rnd tr = tr"
    and tg: "- 1 \<le> tg" "tg \<le> 2 powi 1020" "rnd tg = tg"
    and tb: "- 1 \<le> tb" "tb \<le> 2 powi 1020" "rnd tb = tb"
    by blast
  from hueToRgb_unit[OF pr qr o tr] obtain vr where
    vr: "hueToRgb (Fin p) (Fin q) (Fin tr) = Fin vr" "0 \<le> vr" "vr \<le> 1" by blast
  from hueToRgb_unit[OF pr qr o tg] obtain vg where
    vg: "hueToRgb (Fin p) (Fin q) (Fin tg) = Fin vg" "0 \<le> vg" "vg \<le> 1" by blast
  from hueToRgb_unit[OF pr qr o tb] obtain vb where
    vb: "hueToRgb (Fin p) (Fin q) (Fin tb) = Fin vb" "0 \<le> vb" "vb \<le> 1" by blast
  note t' = t(1)[unfolded t(2)] t(3)[unfolded t(2)]
  have helper: "(let q = (if flt (Fin lv) (Fin (1/2)) then fmul (Fin lv) (fadd (Fin 1) (Fin sv))
                   else fsub (fadd (Fin lv) (Fin sv)) (fmul (Fin lv) (Fin sv)));
              p = fsub (fmul (Fin 2) (Fin lv)) q
          in \<exists>pv qv vr vg vb.
               p = Fin pv \<and> q = Fin qv \<and> 0 \<le> pv \<and> pv \<le> 1 \<and> 0 \<le> qv \<and> qv \<le> 1 \<and>
               hueToRgb p q (fadd (fdiv (Fin hv) (Fin 360)) (fdiv (Fin 1) (Fin 3))) = Fin vr \<and>
               hueToRgb p q (fdiv (Fin hv) (Fin 360)) = Fin vg \<and>
               hueToRgb p q (fsub (fdiv (Fin hv) (Fin 360)) (fdiv (Fin 1) (Fin 3))) = Fin vb \<and>
               0 \<le> vr \<and> vr \<le> 1 \<and> 0 \<le> vg \<and> vg \<le> 1 \<and> 0 \<le> vb \<and> vb \<le> 1)"
    unfolding Let_def q p t(2) t' vr(1) vg(1) vb(1)
    using vr(2,3) vg(2,3) vb(2,3) pr(1,2) qr by blast
  have rng: "- (1/1000) \<le> v \<and> v \<le> 1 + 1/1000" if "0 \<le> v" "v \<le> 1" for v :: rat
    using that by simp
  have "\<exists>i j k. hslToRgb (Fin hv) (Fin sv) (Fin lv) = (Fin (of_int i), Fin (of_int j), Fin (of_int k)) \<and>
           0 \<le> i \<and> i \<le> 255 \<and> 0 \<le> j \<and> j \<le> 255 \<and> 0 \<le> k \<and> k \<le> 255"
  proof (cases "sv = 0")
    case True
    have "- (1/1000) \<le> lv" "lv \<le> 1 + 1/1000" using assms(6,7) by simp_all
    from channel_in_range[OF this] obtain i where
      "Math_round (fmul (Fin lv) (Fin 255)) = Fin (of_int i)" "0 \<le> i" "i \<le> 255" by blast
    then show ?thesis using True by (intro exI[of _ i]) (simp add: hslToRgb_def)
  next
    case False
    from channel_in_range[OF rng[OF vr(2,3), THEN conjunct1] rng[OF vr(2,3), THEN conjunct2]]
    obtain i where
      i: "Math_round (fmul (Fin vr) (Fin 255)) = Fin (of_int i)" "0 \<le> i" "i \<le> 255" by blast
    from channel_in_range[OF rng[OF vg(2,3), THEN conjunct1] rng[OF vg(2,3), THEN conjunct2]]
    obtain j where
      j: "Math_round (fmul (Fin vg) (Fin 255)) = Fin (of_int j)" "0 \<le> j" "j \<le> 255" by blast
    from channel_in_range[OF rng[OF vb(2,3), THEN conjunct1] rng[OF vb(2,3), THEN conjunct2]]
    obtain k where
      k: "Math_round (fmul (Fin vb) (Fin 255)) = Fin (of_int k)" "0 \<le> k" "k \<le> 255" by blast
    have "hslToRgb (Fin hv) (Fin sv) (Fin lv) = (Fin (of_int i), Fin (of_int j), Fin (of_int k))"
      unfolding hslToRgb_def Let_def
      by (simp only: q p t(2) t' vr(1) vg(1) vb(1) i(1) j(1) k(1) feq_Fin False if_False
          case_prod_conv)
    then show ?thesis using i(2,3) j(2,3) k(2,3) by blast
  qed
  with helper show ?thesis by blast
qed

theorem hslToRgb_range_witness:
  "(- 240::rat) \<le> - 120 \<and> (- 120::rat) < 2 ^ 1024 \<and> (0::rat) \<le> 1 \<and> (1::rat) \<le> 1 \<and>
   rnd 1 = 1 \<and> (0::rat) \<le> 1/2 \<and> (1/2::rat) \<le> 1 \<and> rnd (1/2) = 1/2 \<and>
   (\<exists>i j k. hslToRgb (Fin (- 120)) (Fin 1) (Fin (1/2)) = (Fin (of_int i), Fin (of_int j), Fin (of_int k)) \<and>
           0 \<le> i \<and> i \<le> 255 \<and> 0 \<le> j \<and> j \<le> 255 \<and> 0 \<le> k \<and> k \<le> 255)"
proof -
  have h: "rnd (1/2) = 1/2" using rnd_pow2[of "- 1"] by (simp add: power_int_minus_divide)
  from hslToRgb_range[of "- 120" 1 "1/2", THEN conjunct1] h show ?thesis by simp
qed

end
